theory Spec2Isabelle
  imports Main "HOL-Library.Multiset" "HOL-Library.Sublist"
begin

section \<open>The build configuration\<close>

text \<open>
  \<^verbatim>\<open>buildConfig.json\<close> is read with \<^verbatim>\<open>JSON.parse\<close>, so the configuration and its \<^verbatim>\<open>deps\<close> are
  plain objects: every key of the file is an own property, and the prototype is
  \<^verbatim>\<open>Object.prototype\<close>. An object is modelled as the association list of its own
  properties in \<^verbatim>\<open>Object.keys\<close> order; a JavaScript object has every key once, so the
  lists a caller can pass have distinct keys. A field that may be \<^verbatim>\<open>null\<close> or \<^verbatim>\<open>undefined\<close>
  is an \<open>option\<close>; a string field the code only tests for truthiness is a \<open>string\<close>, empty
  when absent. \<open>dep_deps\<close> is the \<^verbatim>\<open>deps\<close> array of one dependency (\<open>None\<close> when the field is
  absent), \<open>deps\<close> is the \<^verbatim>\<open>deps\<close> object of the whole configuration.
\<close>

record git_config =
  url :: string
  shallow :: "bool option"
  initSubmodules :: "bool option"

record tool_spec =
  tool_name :: string
  toolFile :: string

record dep_config =
  name :: string
  git :: "git_config option"
  defaultVersion :: "string option"
  branch :: "string option"
  dep_deps :: "string list option"
  runner :: string
  tools :: "tool_spec list"
  skip :: bool

type_synonym dep_table = "(string \<times> dep_config) list"

record build_config =
  version :: string
  deps :: "dep_table option"
  releasesRoot :: string

subsection \<open>Objects used as dictionaries\<close>

text \<open>
  The sources index plain objects with dependency names: \<^verbatim>\<open>config.deps[depRef]\<close>,
  \<^verbatim>\<open>graph[dependency]\<close>, \<^verbatim>\<open>inDegree[depName]\<close>. Such a lookup finds the own property of that
  name and, when there is none, the member of that name the object inherits from its
  prototype. These are the string-keyed members of \<^verbatim>\<open>Object.prototype\<close>. All of them are
  functions and writable, except \<^verbatim>\<open>__proto__\<close>: reading it gives the prototype of the
  object, and assigning to it replaces the prototype when the value is an object and
  does nothing otherwise. An own property of that name, as \<^verbatim>\<open>JSON.parse\<close> creates it, is
  found before the inherited one.
\<close>

definition object_prototype_names :: "string list" where
  "object_prototype_names =
     [''constructor'', ''__defineGetter__'', ''__defineSetter__'', ''hasOwnProperty'',
      ''__lookupGetter__'', ''__lookupSetter__'', ''isPrototypeOf'', ''propertyIsEnumerable'',
      ''toString'', ''valueOf'', ''__proto__'', ''toLocaleString'']"

text \<open>
  The string-keyed members an object inherits from \<^verbatim>\<open>Array.prototype\<close> (ECMAScript 2023),
  apart from \<^verbatim>\<open>length\<close> and \<^verbatim>\<open>constructor\<close>; all of them are functions. They matter only
  for a graph whose prototype has become an array, and no property below depends on
  which names the list holds.
\<close>

definition array_prototype_names :: "string list" where
  "array_prototype_names =
     [''at'', ''concat'', ''copyWithin'', ''entries'', ''every'', ''fill'', ''filter'', ''find'',
      ''findIndex'', ''findLast'', ''findLastIndex'', ''flat'', ''flatMap'', ''forEach'',
      ''includes'', ''indexOf'', ''join'', ''keys'', ''lastIndexOf'', ''map'', ''pop'', ''push'',
      ''reduce'', ''reduceRight'', ''reverse'', ''shift'', ''slice'', ''some'', ''sort'',
      ''splice'', ''toReversed'', ''toSorted'', ''toSpliced'', ''unshift'', ''values'', ''with'']"

text \<open>The decimal numeral of a number, the name of an array index.\<close>

fun decimal :: "nat \<Rightarrow> string" where
  "decimal n =
     (if n < 10 then [char_of (48 + n)] else decimal (n div 10) @ [char_of (48 + n mod 10)])"

declare decimal.simps [simp del]

text \<open>
  An assignment \<^verbatim>\<open>obj[k] = v\<close> that creates or overwrites an own property; a new property
  comes last.
\<close>

fun assign :: "string \<Rightarrow> 'a \<Rightarrow> (string \<times> 'a) list \<Rightarrow> (string \<times> 'a) list" where
  "assign k v [] = [(k, v)]"
| "assign k v ((k', v') # rest) =
     (if k' = k then (k', v) # rest else (k', v') # assign k v rest)"

text \<open>
  \<^verbatim>\<open>deps[depName].deps || []\<close>, and \<^verbatim>\<open>config.deps[node]?.deps || []\<close> of \<^verbatim>\<open>detectCycles\<close>. In
  \<^verbatim>\<open>resolveBuildOrder\<close> the name always comes from \<^verbatim>\<open>Object.keys(deps)\<close>, so the entry is
  there; in \<^verbatim>\<open>detectCycles\<close> a name that is no key finds \<^verbatim>\<open>undefined\<close> or an inherited
  member, neither of which has a \<^verbatim>\<open>deps\<close>, and the result is the empty list.
\<close>

definition declared_deps :: "dep_table \<Rightarrow> string \<Rightarrow> string list" where
  "declared_deps tbl depName =
     (case map_of tbl depName of
        None \<Rightarrow> []
      | Some d \<Rightarrow> (case dep_deps d of None \<Rightarrow> [] | Some ds \<Rightarrow> ds))"

section \<open>dependency-resolver.js\<close>

subsection \<open>Skipped and active dependencies\<close>

text \<open>
  The first loop of \<^verbatim>\<open>resolveBuildOrder\<close>: \<^verbatim>\<open>skippedDeps\<close> is a \<^verbatim>\<open>Set\<close>, \<^verbatim>\<open>activeDeps\<close> an array
  in key order.
\<close>

fun partition_deps :: "dep_table \<Rightarrow> string set \<times> string list \<Rightarrow> string set \<times> string list" where
  "partition_deps [] (skippedDeps, activeDeps) = (skippedDeps, activeDeps)"
| "partition_deps ((depName, d) # rest) (skippedDeps, activeDeps) =
     (if skip d then partition_deps rest (insert depName skippedDeps, activeDeps)
      else partition_deps rest (skippedDeps, activeDeps @ [depName]))"

text \<open>
  The second loop: every active dependency whose \<^verbatim>\<open>deps\<close> hold a skipped one is recorded
  as \<^verbatim>\<open>{dep, dependsOn}\<close>.
\<close>

fun find_invalid ::
  "dep_table \<Rightarrow> string set \<Rightarrow> string list \<Rightarrow> (string \<times> string list) list
     \<Rightarrow> (string \<times> string list) list" where
  "find_invalid tbl skippedDeps [] invalidDeps = invalidDeps"
| "find_invalid tbl skippedDeps (depName # rest) invalidDeps =
     (let dependencies = declared_deps tbl depName;
          skippedDependencies = filter (\<lambda>dep. dep \<in> skippedDeps) dependencies
      in if length skippedDependencies > 0
         then find_invalid tbl skippedDeps rest (invalidDeps @ [(depName, skippedDependencies)])
         else find_invalid tbl skippedDeps rest invalidDeps)"

subsection \<open>The graph and the in-degrees\<close>

text \<open>
  The errors \<^verbatim>\<open>resolveBuildOrder\<close> throws: the two it raises itself, with what their
  messages are built from (the list \<^verbatim>\<open>invalidDeps\<close> of \<^verbatim>\<open>{dep, dependsOn}\<close>, and the list
  \<^verbatim>\<open>cycles\<close>; both are also handed to the logger), and the \<^verbatim>\<open>TypeError\<close> of the runtime for a
  call of something that is no function, with its message.
\<close>

datatype resolve_error =
    SkippedDependencyError "(string \<times> string list) list"
  | CircularDependencyError "string list list"
  | TypeError string

text \<open>
  \<^verbatim>\<open>graph\<close> and \<^verbatim>\<open>inDegree\<close> start as \<^verbatim>\<open>{}\<close> and are keyed by dependency name.

  \<^verbatim>\<open>graph\<close> holds arrays of names. Its state is the list of its own properties and its
  prototype: \<open>None\<close> for \<^verbatim>\<open>Object.prototype\<close>, and \<open>Some A\<close> once an array was assigned to
  \<^verbatim>\<open>graph['__proto__']\<close>, with \<open>A\<close> the names pushed to that array since. What a lookup
  \<^verbatim>\<open>graph[k]\<close> finds is one of the arrays, nothing, or a value that is no array of the graph
  (an inherited function, the \<^verbatim>\<open>length\<close> of the array that is the prototype, or one of its
  entries), of which only the truthiness matters.
\<close>

record graph =
  graph_own :: "(string \<times> string list) list"
  graph_proto :: "string list option"

datatype slot = Absent | Names "string list" | Foreign bool

definition graph_get :: "graph \<Rightarrow> string \<Rightarrow> slot" where
  "graph_get g k =
     (if k = ''__proto__'' then
        (case graph_proto g of None \<Rightarrow> Foreign True | Some A \<Rightarrow> Names A)
      else
        (case map_of (graph_own g) k of
           Some vs \<Rightarrow> Names vs
         | None \<Rightarrow>
             (case graph_proto g of
                None \<Rightarrow> if k \<in> set object_prototype_names then Foreign True else Absent
              | Some A \<Rightarrow>
                  if k = ''length'' then Foreign (length A \<noteq> 0)
                  else
                    (case map_of (zip (map decimal [0..<length A]) A) k of
                       Some entry \<Rightarrow> Foreign (entry \<noteq> [])
                     | None \<Rightarrow>
                         if k \<in> set array_prototype_names \<or> k \<in> set object_prototype_names
                         then Foreign True else Absent))))"

text \<open>
  \<^verbatim>\<open>graph[k] = []\<close>: for \<^verbatim>\<open>__proto__\<close> the new array becomes the prototype, for any other name
  it becomes an own property, whatever the graph inherits under that name.
\<close>

definition graph_store :: "string \<Rightarrow> string list \<Rightarrow> graph \<Rightarrow> graph" where
  "graph_store k vs g =
     (if k = ''__proto__'' then g\<lparr>graph_proto := Some vs\<rparr>
      else g\<lparr>graph_own := assign k vs (graph_own g)\<rparr>)"

text \<open>
  \<^verbatim>\<open>if (!graph[dependency]) graph[dependency] = []; graph[dependency].push(depName)\<close>: the
  guard creates the array when the lookup finds nothing or a falsy value; the push
  appends to the array found, and throws when what was found has no \<^verbatim>\<open>push\<close>.
\<close>

definition graph_push :: "string \<Rightarrow> string \<Rightarrow> graph \<Rightarrow> resolve_error + graph" where
  "graph_push dependency depName g =
     (let g1 = (case graph_get g dependency of
                  Absent \<Rightarrow> graph_store dependency [] g
                | Foreign False \<Rightarrow> graph_store dependency [] g
                | _ \<Rightarrow> g)
      in case graph_get g1 dependency of
           Names vs \<Rightarrow> Inr (graph_store dependency (vs @ [depName]) g1)
         | _ \<Rightarrow> Inl (TypeError ''graph[dependency].push is not a function''))"

text \<open>
  \<^verbatim>\<open>inDegree\<close> holds numbers, and its prototype stays \<^verbatim>\<open>Object.prototype\<close>. Its state is the
  list of its own properties that hold a number. \<^verbatim>\<open>inDegree['__proto__'] = n\<close> assigns a
  number to the accessor and stores nothing. A name without an own property reads as
  \<^verbatim>\<open>undefined\<close> or as an inherited object, which is not \<^verbatim>\<open>=== 0\<close> and which
  \<^verbatim>\<open>inDegree[dependent]--\<close> turns into \<^verbatim>\<open>NaN\<close>, not \<^verbatim>\<open>=== 0\<close> either and stored nowhere for
  \<^verbatim>\<open>__proto__\<close>; so a name that is absent from the list is never found to be zero.
\<close>

type_synonym in_degree = "(string \<times> int) list"

definition set_in_degree :: "string \<Rightarrow> int \<Rightarrow> in_degree \<Rightarrow> in_degree" where
  "set_in_degree k n inDegree = (if k = ''__proto__'' then inDegree else assign k n inDegree)"

text \<open>The loop that initialises both objects.\<close>

fun init_graph :: "string list \<Rightarrow> graph \<times> in_degree \<Rightarrow> graph \<times> in_degree" where
  "init_graph [] (g, inDegree) = (g, inDegree)"
| "init_graph (depName # rest) (g, inDegree) =
     init_graph rest (graph_store depName [] g, set_in_degree depName 0 inDegree)"

text \<open>The inner loop \<^verbatim>\<open>for (const dependency of dependencies)\<close>.\<close>

fun add_edges :: "string \<Rightarrow> string list \<Rightarrow> graph \<Rightarrow> resolve_error + graph" where
  "add_edges depName [] g = Inr g"
| "add_edges depName (dependency # rest) g =
     (case graph_push dependency depName g of
        Inl e \<Rightarrow> Inl e
      | Inr g' \<Rightarrow> add_edges depName rest g')"

text \<open>The loop that builds the graph: if A depends on B, then B points to A.\<close>

fun build_graph ::
  "dep_table \<Rightarrow> string list \<Rightarrow> graph \<times> in_degree \<Rightarrow> resolve_error + graph \<times> in_degree" where
  "build_graph tbl [] (g, inDegree) = Inr (g, inDegree)"
| "build_graph tbl (depName # rest) (g, inDegree) =
     (let dependencies = declared_deps tbl depName;
          inDegree' = set_in_degree depName (int (length dependencies)) inDegree
      in case add_edges depName dependencies g of
           Inl e \<Rightarrow> Inl e
         | Inr g' \<Rightarrow> build_graph tbl rest (g', inDegree'))"

subsection \<open>Kahn's algorithm\<close>

text \<open>
  \<^verbatim>\<open>inDegree[dependent]--\<close>. Every dependent comes from a list of \<^verbatim>\<open>graph\<close>, and those lists
  hold names of \<^verbatim>\<open>depNames\<close> only, each of which has an entry in \<^verbatim>\<open>inDegree\<close> unless it is
  \<^verbatim>\<open>__proto__\<close>.
\<close>

definition decrement :: "string \<Rightarrow> in_degree \<Rightarrow> in_degree" where
  "decrement k inDegree = map (\<lambda>(k', n). if k' = k then (k', n - 1) else (k', n)) inDegree"

text \<open>The loop \<^verbatim>\<open>for (const dependent of graph[current])\<close>.\<close>

fun process_dependents ::
  "string list \<Rightarrow> in_degree \<times> string list \<Rightarrow> in_degree \<times> string list" where
  "process_dependents [] (inDegree, queue) = (inDegree, queue)"
| "process_dependents (dependent # rest) (inDegree, queue) =
     (let inDegree' = decrement dependent inDegree
      in process_dependents rest
           (inDegree',
            if map_of inDegree' dependent = Some 0 then queue @ [dependent] else queue))"

text \<open>
  \<^verbatim>\<open>graph[current]\<close>: \<open>current\<close> was taken from the queue, which holds only names of
  \<^verbatim>\<open>depNames\<close> whose entry in \<^verbatim>\<open>inDegree\<close> is zero; so the name is not \<^verbatim>\<open>__proto__\<close>, and it
  got its own array when the graph was initialised.
\<close>

definition graph_at :: "graph \<Rightarrow> string \<Rightarrow> string list" where
  "graph_at g k = (case graph_get g k of Names vs \<Rightarrow> vs | _ \<Rightarrow> [])"

definition positive_entries :: "in_degree \<Rightarrow> nat" where
  "positive_entries inDegree = length (filter (\<lambda>(k, n). 0 < n) inDegree)"

lemma positive_entries_decrement_le:
  "positive_entries (decrement k i) \<le> positive_entries i"
  unfolding positive_entries_def decrement_def
  by (induction i) (auto split: prod.splits)

lemma positive_entries_decrement_less:
  "map_of (decrement k i) k = Some 0 \<Longrightarrow> positive_entries (decrement k i) < positive_entries i"
proof (induction i)
  case Nil
  then show ?case by (simp add: decrement_def)
next
  case (Cons e i)
  obtain k' n where e: "e = (k', n)" by (cases e)
  show ?case
  proof (cases "k' = k")
    case True
    with Cons.prems e have "n = 1" by (simp add: decrement_def)
    with True e positive_entries_decrement_le [of k i] show ?thesis
      by (simp add: decrement_def positive_entries_def)
  next
    case False
    with Cons e show ?thesis
      by (simp add: decrement_def positive_entries_def)
  qed
qed

lemma process_dependents_measure:
  "process_dependents ds (i, q) = (i', q') \<Longrightarrow>
     length q' + positive_entries i' \<le> length q + positive_entries i"
proof (induction ds arbitrary: i q)
  case Nil
  then show ?case by simp
next
  case (Cons d ds)
  show ?case
  proof (cases "map_of (decrement d i) d = Some 0")
    case True
    with Cons.prems have "process_dependents ds (decrement d i, q @ [d]) = (i', q')"
      by simp
    from Cons.IH [OF this] positive_entries_decrement_less [OF True] show ?thesis
      by simp
  next
    case False
    with Cons.prems have "process_dependents ds (decrement d i, q) = (i', q')"
      by simp
    from Cons.IH [OF this] positive_entries_decrement_le [of d i] show ?thesis
      by simp
  qed
qed

text \<open>
  The \<^verbatim>\<open>while (queue.length > 0)\<close> loop. \<open>visited\<close> is the \<^verbatim>\<open>Set\<close> of the same name. Each
  round takes one name off the queue and adds at most as many names as entries of
  \<^verbatim>\<open>inDegree\<close> fall to zero, which bounds the number of rounds.
\<close>

function kahn_loop ::
  "graph \<Rightarrow> in_degree \<Rightarrow> string list \<Rightarrow> string list \<Rightarrow> string set
     \<Rightarrow> string list \<times> string set" where
  "kahn_loop g inDegree [] result visited = (result, visited)"
| "kahn_loop g inDegree (current # queue) result visited =
     (case process_dependents (graph_at g current) (inDegree, queue) of
        (inDegree', queue') \<Rightarrow>
          kahn_loop g inDegree' queue' (result @ [current]) (insert current visited))"
  by pat_completeness auto
termination
  apply (relation "measure (\<lambda>(g, i, q, r, v). length q + positive_entries i)")
   apply simp
  apply (auto dest!: process_dependents_measure [OF sym])
  done

subsection \<open>detectCycles\<close>

text \<open>
  \<^verbatim>\<open>cycles\<close>, \<^verbatim>\<open>visiting\<close> and \<^verbatim>\<open>visited\<close> are the three variables the closure \<^verbatim>\<open>dfs\<close> shares
  with \<^verbatim>\<open>detectCycles\<close>; the model threads them through the calls. \<^verbatim>\<open>path\<close> is copied at
  every call (\<^verbatim>\<open>[...path]\<close>), so it is an argument.
\<close>

record dfs_state =
  cycles :: "string list list"
  visiting :: "string set"
  visited :: "string set"

text \<open>\<^verbatim>\<open>Array.prototype.indexOf\<close>: the first position, or \<open>-1\<close>.\<close>

definition indexOf :: "string list \<Rightarrow> string \<Rightarrow> int" where
  "indexOf xs x =
     (if x \<in> set xs then int (length (takeWhile (\<lambda>y. y \<noteq> x) xs)) else - 1)"

text \<open>\<^verbatim>\<open>Array.prototype.slice(start)\<close>: a negative start counts from the end.\<close>

definition slice_from :: "string list \<Rightarrow> int \<Rightarrow> string list" where
  "slice_from xs start =
     (if start < 0 then drop (nat (max 0 (int (length xs) + start))) xs
      else drop (nat start) xs)"

function dfs :: "dep_table \<Rightarrow> string \<Rightarrow> string list \<Rightarrow> dfs_state \<Rightarrow> dfs_state"
  and dfs_each :: "dep_table \<Rightarrow> string list \<Rightarrow> string list \<Rightarrow> dfs_state \<Rightarrow> dfs_state"
where
  "dfs tbl node path st =
     (if node \<in> visiting st then
        (let cycleStart = indexOf path node;
             cycle = slice_from path cycleStart @ [node]
         in st\<lparr>cycles := cycles st @ [cycle]\<rparr>)
      else if node \<in> visited st then st
      else
        (let st1 = st\<lparr>visiting := insert node (visiting st)\<rparr>;
             path' = path @ [node];
             st2 = dfs_each tbl (declared_deps tbl node) path' st1
         in st2\<lparr>visiting := visiting st2 - {node}, visited := insert node (visited st2)\<rparr>))"
| "dfs_each tbl [] path st = st"
| "dfs_each tbl (dep # rest) path st = dfs_each tbl rest path (dfs tbl dep path st)"
  by pat_completeness auto

text \<open>
  A call leaves \<^verbatim>\<open>visiting\<close> as it found it: what it adds it deletes again. So the set
  grows along every chain of nested calls, inside the keys of the configuration.
\<close>

lemma dfs_visiting_dom:
  "dfs_dfs_each_dom (Inl (tbl, node, path, st)) \<Longrightarrow>
     visiting (dfs tbl node path st) = visiting st"
  "dfs_dfs_each_dom (Inr (tbl, ds, path, st)) \<Longrightarrow>
     visiting (dfs_each tbl ds path st) = visiting st"
proof (induction tbl node path st and tbl ds path st rule: dfs_dfs_each.pinduct)
  case (1 tbl node path st)
  then show ?case by (auto simp: dfs.psimps Let_def)
next
  case (2 tbl path st)
  then show ?case by (simp add: dfs_each.psimps)
next
  case (3 tbl dep rest path st)
  then show ?case by (simp add: dfs_each.psimps)
qed

termination dfs
proof (relation
    "measures [\<lambda>x. case x of Inl (tbl, node, path, st) \<Rightarrow> card (fst ` set tbl - visiting st)
                            | Inr (tbl, ds, path, st) \<Rightarrow> card (fst ` set tbl - visiting st),
               \<lambda>x. case x of Inl _ \<Rightarrow> 1 | Inr (tbl, ds, path, st) \<Rightarrow> 2 * length ds]",
    goal_cases)
  case 1
  show ?case by simp
next
  case (2 tbl node path st x xa)
  show ?case
  proof (cases "node \<in> fst ` set tbl")
    case True
    with 2 have "fst ` set tbl - visiting x \<subset> fst ` set tbl - visiting st"
      by auto
    then have "card (fst ` set tbl - visiting x) < card (fst ` set tbl - visiting st)"
      by (intro psubset_card_mono) simp_all
    then show ?thesis by simp
  next
    case False
    with 2 have "fst ` set tbl - visiting x = fst ` set tbl - visiting st" by auto
    moreover from False have "map_of tbl node = None"
      by (simp add: map_of_eq_None_iff)
    then have "declared_deps tbl node = []"
      by (simp add: declared_deps_def)
    ultimately show ?thesis by simp
  qed
next
  case 3
  show ?case by simp
next
  case 4
  then show ?case by (simp add: dfs_visiting_dom)
qed

declare dfs.simps [simp del]

text \<open>The loop \<^verbatim>\<open>for (const node of unvisited)\<close> of \<^verbatim>\<open>detectCycles\<close>.\<close>

fun detect_loop :: "dep_table \<Rightarrow> string list \<Rightarrow> dfs_state \<Rightarrow> dfs_state" where
  "detect_loop tbl [] st = st"
| "detect_loop tbl (node # rest) st =
     (if node \<notin> visited st then detect_loop tbl rest (dfs tbl node [] st)
      else detect_loop tbl rest st)"

definition detectCycles :: "dep_table \<Rightarrow> string list \<Rightarrow> string list list" where
  "detectCycles tbl unvisited =
     cycles (detect_loop tbl unvisited \<lparr>cycles = [], visiting = {}, visited = {}\<rparr>)"

subsection \<open>resolveBuildOrder\<close>

text \<open>
  \<open>visitedSet\<close> below is the \<^verbatim>\<open>visited\<close> of \<^verbatim>\<open>resolveBuildOrder\<close>, renamed apart from the
  field of \<open>dfs_state\<close>.
\<close>

definition resolveBuildOrder :: "build_config option \<Rightarrow> resolve_error + string list" where
  "resolveBuildOrder config =
     (case config of
        None \<Rightarrow> Inr []
      | Some cfg \<Rightarrow>
          (case deps cfg of
             None \<Rightarrow> Inr []
           | Some tbl \<Rightarrow>
               (case partition_deps tbl ({}, []) of
                  (skippedDeps, activeDeps) \<Rightarrow>
                    (let invalidDeps = find_invalid tbl skippedDeps activeDeps []
                     in if length invalidDeps > 0
                        then Inl (SkippedDependencyError invalidDeps)
                        else
                          (let depNames = activeDeps
                           in case build_graph tbl depNames
                                     (init_graph depNames
                                        (\<lparr>graph_own = [], graph_proto = None\<rparr>, [])) of
                                Inl e \<Rightarrow> Inl e
                              | Inr (g, inDegree) \<Rightarrow>
                                  (let queue =
                                         filter (\<lambda>depName. map_of inDegree depName = Some 0)
                                           depNames
                                   in case kahn_loop g inDegree queue [] {} of
                                        (result, visitedSet) \<Rightarrow>
                                          if length result \<noteq> length depNames
                                          then
                                            (let unvisited =
                                                   filter (\<lambda>name. name \<notin> visitedSet) depNames
                                             in Inl (CircularDependencyError
                                                       (detectCycles tbl unvisited)))
                                          else Inr result))))))"

text \<open>
  The messages of the errors: the two template literals of \<^verbatim>\<open>resolveBuildOrder\<close>, and the
  message the runtime gave the \<^verbatim>\<open>TypeError\<close>.
\<close>

fun join :: "string \<Rightarrow> string list \<Rightarrow> string" where
  "join sep [] = []"
| "join sep [x] = x"
| "join sep (x # y # ys) = x @ sep @ join sep (y # ys)"

definition resolve_error_message :: "resolve_error \<Rightarrow> string" where
  \<open>resolve_error_message e =
     (case e of
        SkippedDependencyError invalidDeps \<Rightarrow>
          ''Build configuration error: Non-skipped dependencies cannot depend on skipped dependencies.''
          @ [CHR 0x0A, CHR 0x0A] @ ''Violations:'' @ [CHR 0x0A]
          @ join [CHR 0x0A]
              (map (\<lambda>(dep, dependsOn).
                      ''  - '' @ [CHR 0x22] @ dep @ [CHR 0x22] @ '' depends on skipped: [''
                      @ join '', '' dependsOn @ '']'') invalidDeps)
          @ [CHR 0x0A, CHR 0x0A] @ ''Please either:'' @ [CHR 0x0A]
          @ ''  1. Mark the dependent as skip: true'' @ [CHR 0x0A]
          @ ''  2. Remove the skipped dependency from its deps array'' @ [CHR 0x0A]
          @ ''  3. Remove skip: true from the dependency''
      | CircularDependencyError cycleList \<Rightarrow>
          ''Circular dependencies detected! Build cannot proceed.'' @ [CHR 0x0A]
          @ ''Cycles found:'' @ [CHR 0x0A] @ ''  ''
          @ join ([CHR 0x0A] @ ''  '') (map (join '' -> '') cycleList)
          @ [CHR 0x0A, CHR 0x0A]
          @ ''Please remove these circular dependencies from your buildConfig.json''
      | TypeError text \<Rightarrow> text)\<close>

section \<open>Properties of resolveBuildOrder\<close>

subsection \<open>Example configurations\<close>

text \<open>
  A dependency entry that passes validation, with the given \<^verbatim>\<open>deps\<close> and \<^verbatim>\<open>skip\<close>, and a
  configuration around a table of such entries.
\<close>

definition example_dep :: "string list \<Rightarrow> bool \<Rightarrow> dep_config" where
  "example_dep ds sk =
     \<lparr>name = ''lib'',
      git = Some \<lparr>url = ''https://example.org/lib.git'', shallow = Some True,
                 initSubmodules = Some False\<rparr>,
      defaultVersion = Some ''1.2.3'', branch = None, dep_deps = Some ds,
      runner = ''scripts/build-workers/buildLib.js'', tools = [], skip = sk\<rparr>"

definition example_config :: "dep_table \<Rightarrow> build_config" where
  "example_config tbl = \<lparr>version = ''1.0.0'', deps = Some tbl, releasesRoot = []\<rparr>"

text \<open>Scenario E of the specification: \<open>y\<close> is active and depends on the skipped \<open>x\<close>.\<close>

definition scenario_E :: dep_table where
  "scenario_E = [(''x'', example_dep [] True), (''y'', example_dep [''x''] False)]"

subsection \<open>The partition and the validation loop\<close>

definition active_keys :: "dep_table \<Rightarrow> string list" where
  "active_keys tbl = map fst (filter (\<lambda>(k, d). \<not> skip d) tbl)"

definition skipped_keys :: "dep_table \<Rightarrow> string set" where
  "skipped_keys tbl = fst ` set (filter (\<lambda>(k, d). skip d) tbl)"

text \<open>
  \<open>violates tbl a s\<close>: the active dependency \<open>a\<close> lists the skipped dependency \<open>s\<close> in its
  \<^verbatim>\<open>deps\<close>.
\<close>

definition violates :: "dep_table \<Rightarrow> string \<Rightarrow> string \<Rightarrow> bool" where
  "violates tbl a s \<longleftrightarrow>
     a \<in> set (active_keys tbl) \<and> s \<in> set (declared_deps tbl a) \<and> s \<in> skipped_keys tbl"

lemma partition_deps_eq:
  "partition_deps tbl (S, A) = (S \<union> skipped_keys tbl, A @ active_keys tbl)"
  by (induction tbl arbitrary: S A) (auto simp: active_keys_def skipped_keys_def)

lemma find_invalid_eq:
  "find_invalid tbl S names acc =
     acc @ filter (\<lambda>(n, on). on \<noteq> [])
             (map (\<lambda>n. (n, filter (\<lambda>d. d \<in> S) (declared_deps tbl n))) names)"
  by (induction names arbitrary: acc) (auto simp: Let_def)

lemma find_invalid_names:
  "(\<exists>on. (a, on) \<in> set (find_invalid tbl (skipped_keys tbl) (active_keys tbl) []) \<and> s \<in> set on)
     \<longleftrightarrow> violates tbl a s"
proof
  assume "\<exists>on. (a, on) \<in> set (find_invalid tbl (skipped_keys tbl) (active_keys tbl) [])
            \<and> s \<in> set on"
  then show "violates tbl a s"
    by (auto simp: find_invalid_eq violates_def)
next
  assume v: "violates tbl a s"
  let ?on = "filter (\<lambda>d. d \<in> skipped_keys tbl) (declared_deps tbl a)"
  from v have "s \<in> set ?on" and "a \<in> set (active_keys tbl)"
    by (simp_all add: violates_def)
  then have "?on \<noteq> []" by (auto simp: filter_empty_conv)
  with \<open>a \<in> set (active_keys tbl)\<close>
  have "(a, ?on) \<in> set (find_invalid tbl (skipped_keys tbl) (active_keys tbl) [])"
    by (simp add: find_invalid_eq image_iff)
  with \<open>s \<in> set ?on\<close> show "\<exists>on. (a, on) \<in> set (find_invalid tbl (skipped_keys tbl)
      (active_keys tbl) []) \<and> s \<in> set on"
    by blast
qed


subsection \<open>What the graph holds\<close>

definition dependents :: "dep_table \<Rightarrow> string list \<Rightarrow> string \<Rightarrow> string list" where
  "dependents tbl names b =
     concat (map (\<lambda>a. replicate (count_list (declared_deps tbl a) b) a) names)"

lemma map_of_assign: "map_of (assign k v xs) = (map_of xs)(k \<mapsto> v)"
  by (induction xs) auto

lemma graph_at_own:
  "b \<noteq> ''__proto__'' \<Longrightarrow>
     graph_at g b = (case map_of (graph_own g) b of None \<Rightarrow> [] | Some vs \<Rightarrow> vs)"
  by (simp add: graph_at_def graph_get_def split: option.splits)

lemma graph_get_own:
  "b \<noteq> ''__proto__'' \<Longrightarrow> map_of (graph_own g) b = Some vs \<Longrightarrow> graph_get g b = Names vs"
  by (simp add: graph_get_def)

lemma graph_get_Names:
  "b \<noteq> ''__proto__'' \<Longrightarrow> graph_get g b = Names vs \<Longrightarrow> map_of (graph_own g) b = Some vs"
  by (simp add: graph_get_def split: option.splits if_splits)

lemma graph_at_store:
  "b \<noteq> ''__proto__'' \<Longrightarrow>
     graph_at (graph_store k vs g) b = (if b = k then vs else graph_at g b)"
  by (simp add: graph_at_own graph_store_def map_of_assign)

lemma graph_push_at:
  assumes "graph_push d a g = Inr g'" and "b \<noteq> ''__proto__''"
  shows "graph_at g' b = (if b = d then graph_at g b @ [a] else graph_at g b)"
proof (cases "d = ''__proto__''")
  case True
  with assms have "graph_own g' = graph_own g"
    by (auto simp: graph_push_def graph_get_def graph_store_def Let_def
        split: option.splits slot.splits)
  with assms(2) True show ?thesis by (simp add: graph_at_own)
next
  case False
  let ?g1 = "case graph_get g d of
               Absent \<Rightarrow> graph_store d [] g
             | Foreign False \<Rightarrow> graph_store d [] g
             | _ \<Rightarrow> g"
  from assms(1) obtain vs where vs: "graph_get ?g1 d = Names vs"
    and g': "g' = graph_store d (vs @ [a]) ?g1"
    by (auto simp: graph_push_def Let_def split: slot.splits)
  from False vs have own: "map_of (graph_own ?g1) d = Some vs"
    by (rule graph_get_Names)
  have at1: "graph_at ?g1 b' = graph_at g b'" if "b' \<noteq> ''__proto__''" for b'
  proof (cases "map_of (graph_own g) d")
    case None
    with False have "graph_get g d \<noteq> Names ws" for ws
      using graph_get_Names [of d g ws] by auto
    then have "?g1 = graph_store d [] g \<or> ?g1 = g"
      by (cases "graph_get g d") (auto split: bool.splits)
    moreover from False None have "graph_at g d = []" by (simp add: graph_at_own)
    ultimately show ?thesis
      using that by (auto simp: graph_at_store)
  next
    case (Some ws)
    with False have "graph_get g d = Names ws" by (simp add: graph_get_own)
    then show ?thesis by simp
  qed
  from False own have "vs = graph_at ?g1 d" by (simp add: graph_at_own)
  with at1 [OF False] have "vs = graph_at g d" by simp
  with g' assms(2) at1 [OF assms(2)] show ?thesis
    by (simp add: graph_at_store)
qed

lemma graph_at_add_edges:
  "add_edges a ds g = Inr g' \<Longrightarrow> b \<noteq> ''__proto__'' \<Longrightarrow>
     graph_at g' b = graph_at g b @ replicate (count_list ds b) a"
proof (induction ds arbitrary: g)
  case Nil
  then show ?case by simp
next
  case (Cons d ds)
  from Cons.prems(1) obtain g1 where p: "graph_push d a g = Inr g1"
    and r: "add_edges a ds g1 = Inr g'"
    by (auto split: sum.splits)
  from Cons.IH [OF r Cons.prems(2)] graph_push_at [OF p Cons.prems(2)]
  show ?case by (simp add: replicate_append_same)
qed

lemma build_graph_graph_at:
  "build_graph tbl names (g, i) = Inr (g', i') \<Longrightarrow> b \<noteq> ''__proto__'' \<Longrightarrow>
     graph_at g' b = graph_at g b @ dependents tbl names b"
proof (induction names arbitrary: g i)
  case Nil
  then show ?case by (simp add: dependents_def)
next
  case (Cons n names)
  from Cons.prems(1) obtain g1 where e: "add_edges n (declared_deps tbl n) g = Inr g1"
    and r: "build_graph tbl names
              (g1, set_in_degree n (int (length (declared_deps tbl n))) i) = Inr (g', i')"
    by (auto simp: Let_def split: sum.splits)
  from Cons.IH [OF r Cons.prems(2)] graph_at_add_edges [OF e Cons.prems(2)]
  show ?case by (simp add: dependents_def)
qed

lemma map_of_set_in_degree:
  "map_of (set_in_degree k n i) a
     = (if a = k \<and> k \<noteq> ''__proto__'' then Some n else map_of i a)"
  by (simp add: set_in_degree_def map_of_assign)

lemma build_graph_in_degree_other:
  "build_graph tbl names (g, i) = Inr (g', i') \<Longrightarrow> n \<notin> set names \<or> n = ''__proto__'' \<Longrightarrow>
     map_of i' n = map_of i n"
proof (induction names arbitrary: g i)
  case Nil
  then show ?case by simp
next
  case (Cons m names)
  from Cons.prems(1) obtain g1 where
    r: "build_graph tbl names
          (g1, set_in_degree m (int (length (declared_deps tbl m))) i) = Inr (g', i')"
    by (auto simp: Let_def split: sum.splits)
  from Cons.prems(2) have "n \<notin> set names \<or> n = ''__proto__''" by auto
  from Cons.IH [OF r this] Cons.prems(2) show ?case
    by (auto simp: map_of_set_in_degree)
qed

lemma build_graph_in_degree:
  "build_graph tbl names (g, i) = Inr (g', i') \<Longrightarrow> distinct names \<Longrightarrow> n \<in> set names \<Longrightarrow>
     n \<noteq> ''__proto__'' \<Longrightarrow> map_of i' n = Some (int (length (declared_deps tbl n)))"
proof (induction names arbitrary: g i)
  case Nil
  then show ?case by simp
next
  case (Cons m names)
  from Cons.prems(1) obtain g1 where
    r: "build_graph tbl names
          (g1, set_in_degree m (int (length (declared_deps tbl m))) i) = Inr (g', i')"
    by (auto simp: Let_def split: sum.splits)
  show ?case
  proof (cases "n \<in> set names")
    case True
    with Cons.prems Cons.IH [OF r] show ?thesis by simp
  next
    case False
    with Cons.prems have "n = m" by simp
    with False Cons.prems(4) build_graph_in_degree_other [OF r, of n] show ?thesis
      by (simp add: map_of_set_in_degree)
  qed
qed

lemma init_graph_at:
  "init_graph names (g, i) = (g', i') \<Longrightarrow> b \<noteq> ''__proto__'' \<Longrightarrow>
     graph_at g' b = (if b \<in> set names then [] else graph_at g b)"
proof (induction names arbitrary: g i)
  case Nil
  then show ?case by simp
next
  case (Cons n names)
  from Cons.prems(1) have
    "init_graph names (graph_store n [] g, set_in_degree n 0 i) = (g', i')" by simp
  from Cons.IH [OF this Cons.prems(2)] Cons.prems(2) show ?case
    by (auto simp: graph_at_store)
qed

lemma init_graph_in_degree:
  "init_graph names (g, i) = (g', i') \<Longrightarrow>
     map_of i' a = (if a \<in> set names \<and> a \<noteq> ''__proto__'' then Some 0 else map_of i a)"
proof (induction names arbitrary: g i)
  case Nil
  then show ?case by simp
next
  case (Cons n names)
  from Cons.prems(1) have
    "init_graph names (graph_store n [] g, set_in_degree n 0 i) = (g', i')" by simp
  from Cons.IH [OF this] show ?case
    by (auto simp: map_of_set_in_degree)
qed

text \<open>The only error building the graph can throw is the \<^verbatim>\<open>TypeError\<close> of a failed push.\<close>

lemma build_graph_error:
  "build_graph tbl names start = Inl e \<Longrightarrow>
     e = TypeError ''graph[dependency].push is not a function''"
proof -
  have push: "graph_push d a g = Inl e \<Longrightarrow>
      e = TypeError ''graph[dependency].push is not a function''" for d a g
    by (auto simp: graph_push_def Let_def split: slot.splits)
  have edges: "add_edges a ds g = Inl e \<Longrightarrow>
      e = TypeError ''graph[dependency].push is not a function''" for a ds g
    by (induction ds arbitrary: g) (auto dest: push split: sum.splits)
  have "build_graph tbl names (g, i) = Inl e \<Longrightarrow>
      e = TypeError ''graph[dependency].push is not a function''" for g i
    by (induction names arbitrary: g i) (auto dest: edges simp: Let_def split: sum.splits)
  then show "build_graph tbl names start = Inl e \<Longrightarrow>
      e = TypeError ''graph[dependency].push is not a function''"
    by (cases start) simp
qed


subsection \<open>Configurations without dependencies, and skipped dependencies\<close>

text \<open>
  C10. Called with \<^verbatim>\<open>null\<close> or \<^verbatim>\<open>undefined\<close>, or with a configuration that has no \<^verbatim>\<open>deps\<close>
  field, \<^verbatim>\<open>resolveBuildOrder\<close> returns the empty list and does not throw.
\<close>

theorem resolveBuildOrder_without_deps:
  "resolveBuildOrder None = Inr [] \<and> resolveBuildOrder (Some (cfg\<lparr>deps := None\<rparr>)) = Inr []"
  by (simp add: resolveBuildOrder_def)

text \<open>
  A skipped dependency \<open>x\<close>, and an active \<open>y\<close> that depends on it and also lists
  \<^verbatim>\<open>constructor\<close>, a name for which the lookup \<^verbatim>\<open>graph[dependency]\<close> finds an inherited
  function: building the graph for this configuration throws a \<^verbatim>\<open>TypeError\<close>.
\<close>

definition skipped_and_inherited :: dep_table where
  "skipped_and_inherited =
     [(''x'', example_dep [] True), (''y'', example_dep [''constructor'', ''x''] False)]"

lemma sublist_context: "sublist x y \<Longrightarrow> sublist x (ps @ y @ ss)"
  unfolding sublist_def by (metis append.assoc)

lemma sublist_join: "x \<in> set xs \<Longrightarrow> sublist x (join sep xs)"
proof (induction sep xs rule: join.induct)
  case (1 sep)
  then show ?case by simp
next
  case (2 sep y)
  then show ?case by simp
next
  case (3 sep y z zs)
  show ?case
  proof (cases "x = y")
    case True
    then show ?thesis by simp
  next
    case False
    with "3.prems" have "x \<in> set (z # zs)" by simp
    then have "sublist x (join sep (z # zs))" by (rule "3.IH")
    then have "sublist x ((y @ sep) @ join sep (z # zs) @ [])"
      by (rule sublist_context)
    then show ?thesis by simp
  qed
qed

text \<open>
  C3. When some active dependency lists a skipped dependency in its \<^verbatim>\<open>deps\<close>,
  \<^verbatim>\<open>resolveBuildOrder\<close> throws the error of the validation loop, for every configuration:
  also where the graph holds a cycle, and where building the graph throws, in which
  case the error thrown is not the one of the graph; so the error is raised before the
  graph is built. The list \<^verbatim>\<open>invalidDeps\<close> the error is made from pairs a dependent with
  the skipped dependencies it lists, and its pairs are exactly the violating ones. The
  message of the error is the text of the source, with one line for each entry of
  \<^verbatim>\<open>invalidDeps\<close>; so every violating pair is named in it, the dependent in quotes and
  the skipped dependency in the bracketed list after it.
\<close>

theorem skipped_dependency_rejected:
  assumes "deps cfg = Some tbl" and "violates tbl a s"
  shows "\<exists>invalidDeps.
           invalidDeps = find_invalid tbl (skipped_keys tbl) (active_keys tbl) []
         \<and> resolveBuildOrder (Some cfg) = Inl (SkippedDependencyError invalidDeps)
         \<and> (\<forall>a' s'. violates tbl a' s' \<longleftrightarrow>
               (\<exists>dependsOn. (a', dependsOn) \<in> set invalidDeps \<and> s' \<in> set dependsOn))
         \<and> resolve_error_message (SkippedDependencyError invalidDeps)
             = ''Build configuration error: Non-skipped dependencies cannot depend on skipped dependencies.''
               @ [CHR 0x0A, CHR 0x0A] @ ''Violations:'' @ [CHR 0x0A]
               @ join [CHR 0x0A]
                   (map (\<lambda>(dep, dependsOn).
                           ''  - '' @ [CHR 0x22] @ dep @ [CHR 0x22] @ '' depends on skipped: [''
                           @ join '', '' dependsOn @ '']'') invalidDeps)
               @ [CHR 0x0A, CHR 0x0A] @ ''Please either:'' @ [CHR 0x0A]
               @ ''  1. Mark the dependent as skip: true'' @ [CHR 0x0A]
               @ ''  2. Remove the skipped dependency from its deps array'' @ [CHR 0x0A]
               @ ''  3. Remove skip: true from the dependency''
         \<and> (\<forall>a' s'. violates tbl a' s' \<longrightarrow>
               (\<exists>dependsOn. s' \<in> set dependsOn
                  \<and> sublist (''  - '' @ [CHR 0x22] @ a' @ [CHR 0x22] @ '' depends on skipped: [''
                              @ join '', '' dependsOn @ '']'')
                      (resolve_error_message (SkippedDependencyError invalidDeps))))
         \<and> (\<forall>e. build_graph tbl (active_keys tbl)
                     (init_graph (active_keys tbl) (\<lparr>graph_own = [], graph_proto = None\<rparr>, []))
                   = Inl e
                 \<longrightarrow> resolveBuildOrder (Some cfg) \<noteq> Inl e)"
proof -
  let ?inv = "find_invalid tbl (skipped_keys tbl) (active_keys tbl) []"
  let ?line = "\<lambda>(dep, dependsOn).
      ''  - '' @ [CHR 0x22] @ dep @ [CHR 0x22] @ '' depends on skipped: [''
      @ join '', '' dependsOn @ '']''"
  let ?head = "''Build configuration error: Non-skipped dependencies cannot depend on skipped dependencies.''
      @ [CHR 0x0A, CHR 0x0A] @ ''Violations:'' @ [CHR 0x0A]"
  let ?foot = "[CHR 0x0A, CHR 0x0A] @ ''Please either:'' @ [CHR 0x0A]
      @ ''  1. Mark the dependent as skip: true'' @ [CHR 0x0A]
      @ ''  2. Remove the skipped dependency from its deps array'' @ [CHR 0x0A]
      @ ''  3. Remove skip: true from the dependency''"
  from assms(2) find_invalid_names [of a tbl s] have "?inv \<noteq> []"
    by auto
  with assms(1) have thrown: "resolveBuildOrder (Some cfg) = Inl (SkippedDependencyError ?inv)"
    by (simp add: resolveBuildOrder_def partition_deps_eq)
  have pairs: "violates tbl a' s' \<longleftrightarrow>
      (\<exists>dependsOn. (a', dependsOn) \<in> set ?inv \<and> s' \<in> set dependsOn)" for a' s'
    using find_invalid_names [of a' tbl s'] by blast
  have msg: "resolve_error_message (SkippedDependencyError ?inv)
      = ?head @ join [CHR 0x0A] (map ?line ?inv) @ ?foot"
    by (simp add: resolve_error_message_def)
  have named: "\<exists>dependsOn. s' \<in> set dependsOn
      \<and> sublist (?line (a', dependsOn)) (resolve_error_message (SkippedDependencyError ?inv))"
    if "violates tbl a' s'" for a' s'
  proof -
    from that pairs obtain dependsOn where
      d: "(a', dependsOn) \<in> set ?inv" "s' \<in> set dependsOn" by blast
    from d(1) have "?line (a', dependsOn) \<in> set (map ?line ?inv)"
      unfolding set_map by (rule imageI)
    then have "sublist (?line (a', dependsOn)) (join [CHR 0x0A] (map ?line ?inv))"
      by (rule sublist_join)
    then have "sublist (?line (a', dependsOn)) (?head @ join [CHR 0x0A] (map ?line ?inv) @ ?foot)"
      by (rule sublist_context)
    with d(2) show ?thesis unfolding msg by blast
  qed
  show ?thesis
  proof (intro exI [of _ ?inv] conjI)
    show "?inv = ?inv" ..
    show "resolveBuildOrder (Some cfg) = Inl (SkippedDependencyError ?inv)" by (rule thrown)
    show "\<forall>a' s'. violates tbl a' s' \<longleftrightarrow>
        (\<exists>dependsOn. (a', dependsOn) \<in> set ?inv \<and> s' \<in> set dependsOn)"
      using pairs by blast
    show "resolve_error_message (SkippedDependencyError ?inv)
        = ''Build configuration error: Non-skipped dependencies cannot depend on skipped dependencies.''
          @ [CHR 0x0A, CHR 0x0A] @ ''Violations:'' @ [CHR 0x0A]
          @ join [CHR 0x0A] (map ?line ?inv)
          @ [CHR 0x0A, CHR 0x0A] @ ''Please either:'' @ [CHR 0x0A]
          @ ''  1. Mark the dependent as skip: true'' @ [CHR 0x0A]
          @ ''  2. Remove the skipped dependency from its deps array'' @ [CHR 0x0A]
          @ ''  3. Remove skip: true from the dependency''"
      by (simp add: resolve_error_message_def)
    show "\<forall>a' s'. violates tbl a' s' \<longrightarrow>
        (\<exists>dependsOn. s' \<in> set dependsOn
           \<and> sublist (''  - '' @ [CHR 0x22] @ a' @ [CHR 0x22] @ '' depends on skipped: [''
                       @ join '', '' dependsOn @ '']'')
               (resolve_error_message (SkippedDependencyError ?inv)))"
    proof (intro allI impI)
      fix a' s' assume "violates tbl a' s'"
      from named [OF this] show "\<exists>dependsOn. s' \<in> set dependsOn
           \<and> sublist (''  - '' @ [CHR 0x22] @ a' @ [CHR 0x22] @ '' depends on skipped: [''
                       @ join '', '' dependsOn @ '']'')
               (resolve_error_message (SkippedDependencyError ?inv))"
        by (simp only: prod.case)
    qed
    show "\<forall>e. build_graph tbl (active_keys tbl)
                (init_graph (active_keys tbl) (\<lparr>graph_own = [], graph_proto = None\<rparr>, []))
              = Inl e
            \<longrightarrow> resolveBuildOrder (Some cfg) \<noteq> Inl e"
      using thrown by (auto dest: build_graph_error)
  qed
qed

theorem skipped_dependency_rejected_witness:
  "deps (example_config skipped_and_inherited) = Some skipped_and_inherited
   \<and> violates skipped_and_inherited ''y'' ''x''
   \<and> build_graph skipped_and_inherited (active_keys skipped_and_inherited)
       (init_graph (active_keys skipped_and_inherited)
          (\<lparr>graph_own = [], graph_proto = None\<rparr>, []))
       = Inl (TypeError ''graph[dependency].push is not a function'')
   \<and> resolveBuildOrder (Some (example_config skipped_and_inherited))
       = Inl (SkippedDependencyError [(''y'', [''x''])])
   \<and> resolve_error_message (SkippedDependencyError [(''y'', [''x''])])
       = ''Build configuration error: Non-skipped dependencies cannot depend on skipped dependencies.''
         @ [CHR 0x0A, CHR 0x0A] @ ''Violations:'' @ [CHR 0x0A]
         @ ''  - '' @ [CHR 0x22] @ ''y'' @ [CHR 0x22] @ '' depends on skipped: [x]''
         @ [CHR 0x0A, CHR 0x0A] @ ''Please either:'' @ [CHR 0x0A]
         @ ''  1. Mark the dependent as skip: true'' @ [CHR 0x0A]
         @ ''  2. Remove the skipped dependency from its deps array'' @ [CHR 0x0A]
         @ ''  3. Remove skip: true from the dependency''"
proof -
  let ?T = skipped_and_inherited
  have d: "deps (example_config ?T) = Some ?T"
    by (simp add: example_config_def)
  have keys: "active_keys ?T = [''y'']" "skipped_keys ?T = {''x''}"
    and ds: "declared_deps ?T ''y'' = [''constructor'', ''x'']"
    by (simp_all add: skipped_and_inherited_def example_dep_def active_keys_def
        skipped_keys_def declared_deps_def)
  have v: "violates ?T ''y'' ''x''"
    by (simp add: violates_def keys ds)
  have inv: "find_invalid ?T (skipped_keys ?T) (active_keys ?T) [] = [(''y'', [''x''])]"
    by (simp add: keys ds)
  have g: "build_graph ?T (active_keys ?T)
      (init_graph (active_keys ?T) (\<lparr>graph_own = [], graph_proto = None\<rparr>, []))
      = Inl (TypeError ''graph[dependency].push is not a function'')"
    by (simp add: keys ds graph_store_def set_in_degree_def graph_push_def graph_get_def
        object_prototype_names_def)
  from skipped_dependency_rejected [OF d v] inv
  have "resolveBuildOrder (Some (example_config ?T)) = Inl (SkippedDependencyError [(''y'', [''x''])])"
    and "resolve_error_message (SkippedDependencyError [(''y'', [''x''])])
       = ''Build configuration error: Non-skipped dependencies cannot depend on skipped dependencies.''
         @ [CHR 0x0A, CHR 0x0A] @ ''Violations:'' @ [CHR 0x0A]
         @ ''  - '' @ [CHR 0x22] @ ''y'' @ [CHR 0x22] @ '' depends on skipped: [x]''
         @ [CHR 0x0A, CHR 0x0A] @ ''Please either:'' @ [CHR 0x0A]
         @ ''  1. Mark the dependent as skip: true'' @ [CHR 0x0A]
         @ ''  2. Remove the skipped dependency from its deps array'' @ [CHR 0x0A]
         @ ''  3. Remove skip: true from the dependency''"
    by simp_all
  then show ?thesis using d v g by simp
qed

lemma scenario_E_rejected:
  "resolveBuildOrder (Some (example_config scenario_E))
     = Inl (SkippedDependencyError [(''y'', [''x''])])"
  by code_simp

subsection \<open>The inner loop\<close>

lemma map_of_decrement:
  "map_of (decrement d i) a = (if a = d then map_option (\<lambda>n. n - 1) (map_of i d) else map_of i a)"
  by (induction i) (auto simp: decrement_def)

lemma process_dependents_in_degree:
  "process_dependents xs (i, q) = (i', q') \<Longrightarrow>
     map_of i' a = map_option (\<lambda>n. n - int (count_list xs a)) (map_of i a)"
proof (induction xs arbitrary: i q)
  case Nil
  then show ?case by (simp add: option.map_ident)
next
  case (Cons d xs)
  let ?q = "if map_of (decrement d i) d = Some 0 then q @ [d] else q"
  from Cons.prems have "process_dependents xs (decrement d i, ?q) = (i', q')"
    by (simp add: Let_def)
  from Cons.IH [OF this] show ?case
    by (simp add: map_of_decrement option.map_comp comp_def algebra_simps)
qed

lemma process_dependents_queue:
  assumes "process_dependents xs (i, q) = (i', q')"
    and "\<forall>a\<in>set xs. \<exists>n. map_of i a = Some n \<and> int (count_list xs a) \<le> n"
  shows "\<exists>new. q' = q @ new \<and> distinct new
           \<and> set new = {a \<in> set xs. map_of i a = Some (int (count_list xs a))}"
  using assms
proof (induction xs arbitrary: i q)
  case Nil
  then show ?case by simp
next
  case (Cons d xs)
  let ?i = "decrement d i"
  let ?q = "if map_of ?i d = Some 0 then q @ [d] else q"
  from Cons.prems(2) obtain n where n: "map_of i d = Some n" "int (count_list xs d) + 1 \<le> n"
    by auto
  have pre: "\<forall>a\<in>set xs. \<exists>m. map_of ?i a = Some m \<and> int (count_list xs a) \<le> m"
  proof
    fix a assume a: "a \<in> set xs"
    with Cons.prems(2) obtain m where "map_of i a = Some m" "int (count_list (d # xs) a) \<le> m"
      by auto
    then show "\<exists>m. map_of ?i a = Some m \<and> int (count_list xs a) \<le> m"
      by (auto simp: map_of_decrement)
  qed
  from Cons.prems(1) have run: "process_dependents xs (?i, ?q) = (i', q')"
    by (simp add: Let_def)
  from Cons.IH [OF run pre] obtain new where new:
    "q' = ?q @ new" "distinct new"
    "set new = {a \<in> set xs. map_of ?i a = Some (int (count_list xs a))}"
    by blast
  show ?case
  proof (cases "map_of ?i d = Some 0")
    case True
    with n have n1: "n = 1" by (simp add: map_of_decrement)
    with n have "count_list xs d = 0" by simp
    then have dx: "d \<notin> set xs" by (simp add: count_list_0_iff)
    have "set (d # new) = {a \<in> set (d # xs). map_of i a = Some (int (count_list (d # xs) a))}"
      using new(3) dx n n1 \<open>count_list xs d = 0\<close> by (auto simp: map_of_decrement)
    moreover from dx new(3) have "distinct (d # new)" using new(2) by auto
    moreover from True new(1) have "q' = q @ d # new" by simp
    ultimately show ?thesis by blast
  next
    case False
    with n have n1: "n \<noteq> 1" by (simp add: map_of_decrement)
    have "set new = {a \<in> set (d # xs). map_of i a = Some (int (count_list (d # xs) a))}"
    proof (intro set_eqI iffI)
      fix a assume "a \<in> set new"
      with new(3) have "a \<in> set xs" "map_of ?i a = Some (int (count_list xs a))" by auto
      then show "a \<in> {a \<in> set (d # xs). map_of i a = Some (int (count_list (d # xs) a))}"
        using n by (auto simp: map_of_decrement split: if_splits)
    next
      fix a assume "a \<in> {a \<in> set (d # xs). map_of i a = Some (int (count_list (d # xs) a))}"
      then have a: "a \<in> set (d # xs)" "map_of i a = Some (int (count_list (d # xs) a))" by auto
      show "a \<in> set new"
      proof (cases "a = d")
        case True
        with a n have "n = int (count_list xs d) + 1" by simp
        with n1 have "count_list xs d \<noteq> 0" by simp
        then have "d \<in> set xs" by (simp add: count_list_0_iff)
        with True a n new(3) show ?thesis by (simp add: map_of_decrement)
      next
        case False
        with a new(3) show ?thesis by (simp add: map_of_decrement)
      qed
    qed
    with False new show ?thesis by auto
  qed
qed


subsection \<open>The invariant of the outer loop\<close>

definition remaining :: "dep_table \<Rightarrow> string list \<Rightarrow> string \<Rightarrow> nat" where
  "remaining tbl r a = length (filter (\<lambda>b. b \<notin> set r) (declared_deps tbl a))"

definition kahn_inv ::
  "dep_table \<Rightarrow> string list \<Rightarrow> in_degree \<Rightarrow> string list \<Rightarrow> string list \<Rightarrow> bool" where
  "kahn_inv tbl names i q r \<longleftrightarrow>
     distinct (r @ q) \<and> set (r @ q) \<subseteq> set names
     \<and> (\<forall>a\<in>set names. map_of i a = Some (int (remaining tbl r a)))
     \<and> (\<forall>a\<in>set names. a \<in> set (r @ q) \<longleftrightarrow> set (declared_deps tbl a) \<subseteq> set r)
     \<and> (\<forall>k<length r. set (declared_deps tbl (r ! k)) \<subseteq> set (take k r))"

lemma remaining_0_iff: "remaining tbl r a = 0 \<longleftrightarrow> set (declared_deps tbl a) \<subseteq> set r"
  by (auto simp: remaining_def filter_empty_conv)

lemma filter_snoc_count:
  "c \<notin> set r \<Longrightarrow>
     length (filter (\<lambda>b. b \<notin> set (r @ [c])) xs) + count_list xs c
       = length (filter (\<lambda>b. b \<notin> set r) xs)"
  by (induction xs) auto

lemma remaining_snoc:
  "c \<notin> set r \<Longrightarrow>
     remaining tbl (r @ [c]) a + count_list (declared_deps tbl a) c = remaining tbl r a"
  unfolding remaining_def by (rule filter_snoc_count)

lemma count_list_replicate: "count_list (replicate n x) y = (if x = y then n else 0)"
  by (induction n) auto

lemma count_list_dependents:
  "distinct names \<Longrightarrow>
     count_list (dependents tbl names c) a
       = (if a \<in> set names then count_list (declared_deps tbl a) c else 0)"
  unfolding dependents_def
  by (induction names) (auto simp: count_list_replicate)

lemma set_dependents:
  "set (dependents tbl names c) = {a \<in> set names. c \<in> set (declared_deps tbl a)}"
  unfolding dependents_def
  by (auto simp: count_list_0_iff)


lemma kahn_inv_step:
  assumes dn: "distinct names"
    and inv: "kahn_inv tbl names i (c # q) r"
    and run: "process_dependents (dependents tbl names c) (i, q) = (i', q')"
  shows "kahn_inv tbl names i' q' (r @ [c])"
proof -
  let ?D = "declared_deps tbl"
  let ?ds = "dependents tbl names c"
  from inv have d: "distinct (r @ c # q)" and sub: "set (r @ c # q) \<subseteq> set names"
    unfolding kahn_inv_def by blast+
  from inv have deg: "map_of i a = Some (int (remaining tbl r a))" if "a \<in> set names" for a
    using that unfolding kahn_inv_def by blast
  from inv have mem: "a \<in> set (r @ c # q) \<longleftrightarrow> set (?D a) \<subseteq> set r" if "a \<in> set names" for a
    using that unfolding kahn_inv_def by blast
  from inv have ord: "set (?D (r ! k)) \<subseteq> set (take k r)" if "k < length r" for k
    using that unfolding kahn_inv_def by blast
  from d sub have c: "c \<notin> set r" "c \<in> set names" by auto
  have cnt: "count_list ?ds a = count_list (?D a) c" if "a \<in> set names" for a
    using that dn by (simp add: count_list_dependents)
  have rem: "remaining tbl (r @ [c]) a + count_list (?D a) c = remaining tbl r a" for a
    using c(1) by (rule remaining_snoc)
  have pre: "\<forall>a\<in>set ?ds. \<exists>n. map_of i a = Some n \<and> int (count_list ?ds a) \<le> n"
  proof
    fix a assume "a \<in> set ?ds"
    then have a: "a \<in> set names" by (simp add: set_dependents)
    from rem [of a] cnt [OF a] have "int (count_list ?ds a) \<le> int (remaining tbl r a)"
      by simp
    with deg [OF a] show "\<exists>n. map_of i a = Some n \<and> int (count_list ?ds a) \<le> n"
      by simp
  qed
  from process_dependents_queue [OF run pre] obtain new where new:
    "q' = q @ new" "distinct new"
    "set new = {a \<in> set ?ds. map_of i a = Some (int (count_list ?ds a))}"
    by blast
  have new_iff: "a \<in> set new \<longleftrightarrow>
      a \<in> set names \<and> c \<in> set (?D a) \<and> remaining tbl (r @ [c]) a = 0" for a
  proof (cases "a \<in> set names")
    case True
    from rem [of a] have "remaining tbl r a = count_list (?D a) c \<longleftrightarrow>
        remaining tbl (r @ [c]) a = 0" by arith
    with True show ?thesis
      by (simp add: new(3) set_dependents deg cnt)
  next
    case False
    then show ?thesis by (simp add: new(3) set_dependents)
  qed
  have deg': "map_of i' a = Some (int (remaining tbl (r @ [c]) a))" if "a \<in> set names" for a
  proof -
    from rem [of a] have "int (remaining tbl r a) - int (count_list (?D a) c)
        = int (remaining tbl (r @ [c]) a)" by arith
    with process_dependents_in_degree [OF run, of a] deg [OF that] cnt [OF that]
    show ?thesis by simp
  qed
  have mem': "a \<in> set ((r @ [c]) @ q') \<longleftrightarrow> set (?D a) \<subseteq> set (r @ [c])"
    if a: "a \<in> set names" for a
  proof
    assume "a \<in> set ((r @ [c]) @ q')"
    then consider "a \<in> set (r @ c # q)" | "a \<in> set new" using new(1) by auto
    then show "set (?D a) \<subseteq> set (r @ [c])"
    proof cases
      case 1
      with mem [OF a] show ?thesis by auto
    next
      case 2
      then have "remaining tbl (r @ [c]) a = 0" by (simp add: new_iff)
      then show ?thesis by (simp only: remaining_0_iff)
    qed
  next
    assume s: "set (?D a) \<subseteq> set (r @ [c])"
    show "a \<in> set ((r @ [c]) @ q')"
    proof (cases "set (?D a) \<subseteq> set r")
      case True
      with mem [OF a] new(1) show ?thesis by auto
    next
      case False
      with s have "c \<in> set (?D a)" by auto
      moreover from s have "remaining tbl (r @ [c]) a = 0" by (simp only: remaining_0_iff)
      ultimately have "a \<in> set new" using a by (simp add: new_iff)
      with new(1) show ?thesis by simp
    qed
  qed
  have fresh: "a \<notin> set (r @ c # q)" if "a \<in> set new" for a
  proof -
    from that have a: "a \<in> set names" and "c \<in> set (?D a)" by (simp_all add: new_iff)
    with c(1) have "\<not> set (?D a) \<subseteq> set r" by auto
    with mem [OF a] show ?thesis by simp
  qed
  have dist': "distinct ((r @ [c]) @ q')"
    using d new(1,2) fresh by auto
  have sub': "set ((r @ [c]) @ q') \<subseteq> set names"
    using sub new(1) new_iff by auto
  have ord': "set (?D ((r @ [c]) ! k)) \<subseteq> set (take k (r @ [c]))" if "k < length (r @ [c])" for k
  proof (cases "k < length r")
    case True
    with ord [OF True] show ?thesis by (simp add: nth_append)
  next
    case False
    with that have k: "k = length r" by simp
    from mem [OF c(2)] have "set (?D c) \<subseteq> set r" by simp
    with k show ?thesis by simp
  qed
  show ?thesis
    unfolding kahn_inv_def using dist' sub' deg' mem' ord' by blast
qed


text \<open>
  A name without an entry in \<^verbatim>\<open>inDegree\<close>, as \<^verbatim>\<open>__proto__\<close> is one, passes through the inner
  loop without a trace.
\<close>

lemma decrement_absent: "map_of i k = None \<Longrightarrow> decrement k i = i"
  by (induction i) (auto simp: decrement_def split: if_splits)

lemma process_dependents_absent:
  "map_of i k = None \<Longrightarrow>
     process_dependents xs (i, q) = process_dependents (filter (\<lambda>x. x \<noteq> k) xs) (i, q)"
proof (induction xs arbitrary: i q)
  case Nil
  show ?case by simp
next
  case (Cons d xs)
  show ?case
  proof (cases "d = k")
    case True
    with Cons.prems Cons.IH [OF Cons.prems] show ?thesis
      by (simp add: decrement_absent)
  next
    case False
    let ?i = "decrement d i"
    from Cons.prems False have "map_of ?i k = None" by (simp add: map_of_decrement)
    from Cons.IH [OF this] False show ?thesis by (simp add: Let_def)
  qed
qed

lemma dependents_filter:
  "filter (\<lambda>x. x \<noteq> k) (dependents tbl names b) = dependents tbl (filter (\<lambda>x. x \<noteq> k) names) b"
  unfolding dependents_def by (induction names) auto

lemma kahn_loop_inv:
  assumes dn: "distinct names" and live: "names = filter (\<lambda>x. x \<noteq> k) every"
  shows "\<forall>b\<in>set names. graph_at g b = dependents tbl every b \<Longrightarrow> map_of i k = None \<Longrightarrow>
           kahn_inv tbl names i q r \<Longrightarrow>
           v = set r \<Longrightarrow> kahn_loop g i q r v = (r', v') \<Longrightarrow>
           (\<exists>i'. kahn_inv tbl names i' [] r') \<and> v' = set r'"
proof (induction g i q r v rule: kahn_loop.induct)
  case (1 g inDegree result visited)
  then show ?case by auto
next
  case (2 g inDegree current queue result visited)
  obtain i1 q1 where run: "process_dependents (graph_at g current) (inDegree, queue) = (i1, q1)"
    by (cases "process_dependents (graph_at g current) (inDegree, queue)")
  from "2.prems"(3) have "current \<in> set names" by (simp add: kahn_inv_def)
  with "2.prems"(1) have "graph_at g current = dependents tbl every current" by simp
  with run process_dependents_absent [OF "2.prems"(2), of "dependents tbl every current" queue]
  have run': "process_dependents (dependents tbl names current) (inDegree, queue) = (i1, q1)"
    by (simp add: dependents_filter live)
  from kahn_inv_step [OF dn "2.prems"(3) run']
  have inv: "kahn_inv tbl names i1 q1 (result @ [current])" .
  from process_dependents_in_degree [OF run', of k] "2.prems"(2)
  have absent: "map_of i1 k = None" by simp
  from "2.prems"(4) have v: "insert current visited = set (result @ [current])" by simp
  from "2.prems"(5) run
  have "kahn_loop g i1 q1 (result @ [current]) (insert current visited) = (r', v')" by simp
  from "2.IH" [OF run [symmetric] "2.prems"(1) absent inv v this] show ?case .
qed

lemma kahn_inv_init:
  assumes "distinct names"
    and "\<And>a. a \<in> set names \<Longrightarrow> map_of i a = Some (int (length (declared_deps tbl a)))"
  shows "kahn_inv tbl names i (filter (\<lambda>n. map_of i n = Some 0) names) []"
  unfolding kahn_inv_def using assms by (auto simp: remaining_def)


text \<open>What \<^verbatim>\<open>resolveBuildOrder\<close> returns once the validation loop found nothing.\<close>

lemma resolveBuildOrder_kahn:
  assumes cfg: "deps cfg = Some tbl" and dist: "distinct (map fst tbl)"
    and ok: "find_invalid tbl (skipped_keys tbl) (active_keys tbl) [] = []"
  shows "(\<exists>e. build_graph tbl (active_keys tbl)
                 (init_graph (active_keys tbl) (\<lparr>graph_own = [], graph_proto = None\<rparr>, []))
               = Inl e
              \<and> resolveBuildOrder (Some cfg) = Inl e)
         \<or> (\<exists>g0 i r.
               build_graph tbl (active_keys tbl)
                 (init_graph (active_keys tbl) (\<lparr>graph_own = [], graph_proto = None\<rparr>, []))
               = Inr g0
             \<and> kahn_inv tbl (filter (\<lambda>n. n \<noteq> ''__proto__'') (active_keys tbl)) i [] r
             \<and> resolveBuildOrder (Some cfg) =
                 (if length r \<noteq> length (active_keys tbl)
                  then Inl (CircularDependencyError
                              (detectCycles tbl (filter (\<lambda>n. n \<notin> set r) (active_keys tbl))))
                  else Inr r))"
proof -
  let ?N = "active_keys tbl"
  let ?L = "filter (\<lambda>n. n \<noteq> ''__proto__'') ?N"
  let ?start = "init_graph ?N (\<lparr>graph_own = [], graph_proto = None\<rparr>, [])"
  obtain g1 i1 where init: "?start = (g1, i1)" by (cases ?start)
  show ?thesis
  proof (cases "build_graph tbl ?N ?start")
    case (Inl e)
    with cfg ok have "resolveBuildOrder (Some cfg) = Inl e"
      by (simp add: resolveBuildOrder_def partition_deps_eq Let_def)
    with Inl show ?thesis by blast
  next
    case (Inr built)
    obtain g i where built: "built = (g, i)" by (cases built)
    with Inr init have build: "build_graph tbl ?N (g1, i1) = Inr (g, i)" by simp
    let ?q = "filter (\<lambda>n. map_of i n = Some 0) ?N"
    obtain r v where loop: "kahn_loop g i ?q [] {} = (r, v)"
      by (cases "kahn_loop g i ?q [] {}")
    from dist have dn: "distinct ?N"
      unfolding active_keys_def by (simp add: distinct_map_filter)
    then have dl: "distinct ?L" by simp
    have g: "graph_at g b = dependents tbl ?N b" if "b \<in> set ?L" for b
    proof -
      from that have b: "b \<noteq> ''__proto__''" "b \<in> set ?N" by simp_all
      from init_graph_at [OF init b(1)] b(2) have "graph_at g1 b = []" by simp
      with build_graph_graph_at [OF build b(1)] show ?thesis by simp
    qed
    have i: "map_of i a = Some (int (length (declared_deps tbl a)))" if "a \<in> set ?L" for a
      using build_graph_in_degree [OF build dn, of a] that by simp
    have absent: "map_of i ''__proto__'' = None"
      using build_graph_in_degree_other [OF build, of "''__proto__''"]
        init_graph_in_degree [OF init, of "''__proto__''"] by simp
    have q: "?q = filter (\<lambda>n. map_of i n = Some 0) ?L"
    proof -
      have "(map_of i n = Some 0) = (n \<noteq> ''__proto__'' \<and> map_of i n = Some 0)" for n
        using absent by auto
      then show ?thesis by (simp add: conj_commute)
    qed
    from g have "\<forall>b\<in>set ?L. graph_at g b = dependents tbl ?N b" by simp
    from kahn_loop_inv [OF dl refl this absent kahn_inv_init [OF dl i] _ loop [unfolded q]]
    obtain i' where inv: "kahn_inv tbl ?L i' [] r" and v: "v = set r" by auto
    from cfg ok Inr built loop v
    have "resolveBuildOrder (Some cfg) =
        (if length r \<noteq> length ?N
         then Inl (CircularDependencyError (detectCycles tbl (filter (\<lambda>n. n \<notin> set r) ?N)))
         else Inr r)"
      by (simp add: resolveBuildOrder_def partition_deps_eq Let_def)
    with inv Inr show ?thesis by blast
  qed
qed

subsection \<open>The order of an acyclic configuration\<close>

definition active_edges :: "dep_table \<Rightarrow> (string \<times> string) set" where
  "active_edges tbl =
     {(b, a). a \<in> set (active_keys tbl) \<and> b \<in> set (active_keys tbl)
              \<and> b \<in> set (declared_deps tbl a)}"

definition valid_refs :: "dep_table \<Rightarrow> bool" where
  "valid_refs tbl \<longleftrightarrow>
     (\<forall>a\<in>set (active_keys tbl). \<forall>b\<in>set (declared_deps tbl a).
        b \<in> fst ` set tbl \<and> b \<notin> skipped_keys tbl)"

definition appears_before :: "string list \<Rightarrow> string \<Rightarrow> string \<Rightarrow> bool" where
  "appears_before order b a \<longleftrightarrow>
     (\<exists>i j. i < j \<and> j < length order \<and> order ! i = b \<and> order ! j = a)"

text \<open>
  Scenario A of the specification: \<open>b\<close> and \<open>c\<close> depend on \<open>a\<close>.
\<close>

definition scenario_A :: dep_table where
  "scenario_A =
     [(''a'', example_dep [] False), (''b'', example_dep [''a''] False),
      (''c'', example_dep [''a''] False)]"

lemma key_active_or_skipped:
  "b \<in> fst ` set tbl \<Longrightarrow> b \<notin> skipped_keys tbl \<Longrightarrow> b \<in> set (active_keys tbl)"
  by (force simp: active_keys_def skipped_keys_def)

lemma valid_refs_no_violation:
  assumes "valid_refs tbl"
  shows "find_invalid tbl (skipped_keys tbl) (active_keys tbl) [] = []"
proof (rule ccontr)
  assume "find_invalid tbl (skipped_keys tbl) (active_keys tbl) [] \<noteq> []"
  then obtain a on where
    m: "(a, on) \<in> set (find_invalid tbl (skipped_keys tbl) (active_keys tbl) [])"
    by (cases "find_invalid tbl (skipped_keys tbl) (active_keys tbl) []") auto
  then have "on \<noteq> []" by (auto simp: find_invalid_eq)
  then obtain s where "s \<in> set on" by (cases on) auto
  with m find_invalid_names [of a tbl s] have "violates tbl a s" by blast
  with assms show False by (auto simp: violates_def valid_refs_def)
qed

lemma kahn_inv_ordered:
  assumes "kahn_inv tbl names i [] r" and "a \<in> set r" and "b \<in> set (declared_deps tbl a)"
  shows "appears_before r b a"
proof -
  from assms(2) obtain k where k: "k < length r" "r ! k = a"
    by (auto simp: in_set_conv_nth)
  with assms(1) have "set (declared_deps tbl a) \<subseteq> set (take k r)"
    unfolding kahn_inv_def by blast
  with assms(3) have "b \<in> set (take k r)" by blast
  then obtain j where "j < length (take k r)" "take k r ! j = b"
    by (auto simp: in_set_conv_nth)
  with k have "j < k" "r ! j = b" by simp_all
  with k show ?thesis unfolding appears_before_def by blast
qed


text \<open>
  Where every reference is an active key and no active key is \<^verbatim>\<open>__proto__\<close>, every lookup
  \<^verbatim>\<open>graph[dependency]\<close> finds the array made for that key, and the graph gets built.
\<close>

lemma dom_assign: "dom (map_of (assign k v xs)) = insert k (dom (map_of xs))"
  by (simp add: map_of_assign)

lemma init_graph_dom:
  "init_graph names (g, i) = (g', i') \<Longrightarrow>
     dom (map_of (graph_own g')) = dom (map_of (graph_own g)) \<union> (set names - {''__proto__''})"
proof (induction names arbitrary: g i)
  case Nil
  then show ?case by simp
next
  case (Cons n names)
  from Cons.prems have
    "init_graph names (graph_store n [] g, set_in_degree n 0 i) = (g', i')" by simp
  from Cons.IH [OF this] show ?case
    by (auto simp: graph_store_def dom_assign)
qed

lemma graph_push_own:
  assumes "d \<noteq> ''__proto__''" and "d \<in> dom (map_of (graph_own g))"
  shows "\<exists>g'. graph_push d a g = Inr g'
           \<and> dom (map_of (graph_own g')) = dom (map_of (graph_own g))"
proof -
  from assms(2) obtain vs where "map_of (graph_own g) d = Some vs" by auto
  with assms(1) have "graph_get g d = Names vs" by (simp add: graph_get_own)
  with assms show ?thesis
    by (auto simp: graph_push_def graph_store_def dom_assign)
qed

lemma add_edges_own:
  "set ds \<subseteq> dom (map_of (graph_own g)) - {''__proto__''} \<Longrightarrow>
     \<exists>g'. add_edges a ds g = Inr g'
       \<and> dom (map_of (graph_own g')) = dom (map_of (graph_own g))"
proof (induction ds arbitrary: g)
  case Nil
  show ?case by simp
next
  case (Cons d ds)
  from Cons.prems have "d \<noteq> ''__proto__''" "d \<in> dom (map_of (graph_own g))" by auto
  from graph_push_own [OF this, of a] obtain g1 where
    g1: "graph_push d a g = Inr g1" "dom (map_of (graph_own g1)) = dom (map_of (graph_own g))"
    by blast
  with Cons.prems have "set ds \<subseteq> dom (map_of (graph_own g1)) - {''__proto__''}" by auto
  from Cons.IH [OF this] g1 show ?case by auto
qed

lemma build_graph_own:
  "\<forall>n\<in>set names. set (declared_deps tbl n) \<subseteq> dom (map_of (graph_own g)) - {''__proto__''}
     \<Longrightarrow> \<exists>built. build_graph tbl names (g, i) = Inr built"
proof (induction names arbitrary: g i)
  case Nil
  show ?case by simp
next
  case (Cons n names)
  from Cons.prems
  have "set (declared_deps tbl n) \<subseteq> dom (map_of (graph_own g)) - {''__proto__''}" by simp
  from add_edges_own [OF this, of n] obtain g1 where
    g1: "add_edges n (declared_deps tbl n) g = Inr g1"
      "dom (map_of (graph_own g1)) = dom (map_of (graph_own g))"
    by blast
  with Cons.prems
  have "\<forall>m\<in>set names. set (declared_deps tbl m) \<subseteq> dom (map_of (graph_own g1)) - {''__proto__''}"
    by simp
  from Cons.IH [OF this] g1(1) show ?case by (simp add: Let_def)
qed

text \<open>
  For a configuration (an object, so its keys are distinct) whose \<^verbatim>\<open>deps\<close> references are
  valid (every entry of an active dependency's \<^verbatim>\<open>deps\<close> is a key of the configuration and
  is not skipped), whose graph over the active nodes is acyclic and in which no active
  dependency is called \<^verbatim>\<open>__proto__\<close>, \<^verbatim>\<open>resolveBuildOrder\<close> returns a permutation of the
  active keys in which every \<open>b\<close> in the \<^verbatim>\<open>deps\<close> of an active \<open>a\<close> appears strictly before
  \<open>a\<close>.
\<close>

lemma resolveBuildOrder_topological:
  assumes cfg: "deps cfg = Some tbl" and dist: "distinct (map fst tbl)"
    and valid: "valid_refs tbl" and acyc: "acyclic (active_edges tbl)"
    and plain: "''__proto__'' \<notin> set (active_keys tbl)"
  shows "\<exists>order. resolveBuildOrder (Some cfg) = Inr order
           \<and> mset order = mset (active_keys tbl)
           \<and> (\<forall>a\<in>set (active_keys tbl). \<forall>b\<in>set (declared_deps tbl a).
                 appears_before order b a)"
proof -
  let ?N = "active_keys tbl"
  let ?start = "init_graph ?N (\<lparr>graph_own = [], graph_proto = None\<rparr>, [])"
  obtain g1 i1 where init: "?start = (g1, i1)" by (cases ?start)
  from init_graph_dom [OF init] plain have "dom (map_of (graph_own g1)) = set ?N" by simp
  moreover from valid have "\<forall>n\<in>set ?N. set (declared_deps tbl n) \<subseteq> set ?N"
    by (auto simp: valid_refs_def intro: key_active_or_skipped)
  ultimately
  have "\<forall>n\<in>set ?N. set (declared_deps tbl n) \<subseteq> dom (map_of (graph_own g1)) - {''__proto__''}"
    using plain by auto
  from build_graph_own [OF this, of i1] init
  have built: "\<exists>built. build_graph tbl ?N ?start = Inr built" by simp
  from plain have live: "filter (\<lambda>n. n \<noteq> ''__proto__'') ?N = ?N"
    by (auto simp: filter_id_conv)
  from resolveBuildOrder_kahn [OF cfg dist valid_refs_no_violation [OF valid]] built
  obtain i r where inv: "kahn_inv tbl ?N i [] r"
    and res: "resolveBuildOrder (Some cfg) =
      (if length r \<noteq> length ?N
       then Inl (CircularDependencyError (detectCycles tbl (filter (\<lambda>n. n \<notin> set r) ?N)))
       else Inr r)"
    unfolding live by auto
  from dist have dn: "distinct ?N"
    unfolding active_keys_def by (simp add: distinct_map_filter)
  from inv have dr: "distinct r" and sub: "set r \<subseteq> set ?N"
    and mem: "\<And>a. a \<in> set ?N \<Longrightarrow> a \<in> set r \<longleftrightarrow> set (declared_deps tbl a) \<subseteq> set r"
    unfolding kahn_inv_def by auto
  have "active_edges tbl \<subseteq> set ?N \<times> set ?N"
    unfolding active_edges_def by auto
  then have "finite (active_edges tbl)"
    by (rule finite_subset) simp
  with acyc have wf: "wf (active_edges tbl)"
    by (simp add: finite_acyclic_wf)
  have all: "set ?N \<subseteq> set r"
  proof (rule ccontr)
    assume "\<not> set ?N \<subseteq> set r"
    then obtain x where "x \<in> set ?N - set r" by auto
    with wf obtain z where z: "z \<in> set ?N - set r"
      and least: "\<And>y. (y, z) \<in> active_edges tbl \<Longrightarrow> y \<notin> set ?N - set r"
      by (rule wfE_min) blast
    have "set (declared_deps tbl z) \<subseteq> set r"
    proof
      fix b assume b: "b \<in> set (declared_deps tbl z)"
      with valid z have "b \<in> set ?N"
        by (auto simp: valid_refs_def intro: key_active_or_skipped)
      with b z have "(b, z) \<in> active_edges tbl" by (simp add: active_edges_def)
      from least [OF this] \<open>b \<in> set ?N\<close> show "b \<in> set r" by simp
    qed
    with mem [of z] z show False by simp
  qed
  with sub have eq: "set r = set ?N" by auto
  with dr dn have "mset r = mset ?N"
    by (simp add: set_eq_iff_mset_eq_distinct)
  moreover from this have "length r = length ?N"
    by (rule mset_eq_length)
  moreover have "\<forall>a\<in>set ?N. \<forall>b\<in>set (declared_deps tbl a). appears_before r b a"
    using kahn_inv_ordered [OF inv] eq by blast
  ultimately show ?thesis using res by simp
qed

lemma scenario_A_order:
  "resolveBuildOrder (Some (example_config scenario_A)) = Inr [''a'', ''b'', ''c'']"
  by code_simp

text \<open>
  A configuration whose only dependency is called \<^verbatim>\<open>__proto__\<close>. It has no references and
  no cycle.
\<close>

definition proto_only :: dep_table where
  "proto_only = [(''__proto__'', example_dep [] False)]"

lemma proto_only_valid:
  "distinct (map fst proto_only) \<and> valid_refs proto_only \<and> acyclic (active_edges proto_only)"
proof -
  have "declared_deps proto_only ''__proto__'' = []"
    by (simp add: proto_only_def declared_deps_def example_dep_def)
  moreover have "active_keys proto_only = [''__proto__'']"
    by (simp add: proto_only_def active_keys_def example_dep_def)
  ultimately have "active_edges proto_only = {}" "valid_refs proto_only"
    by (auto simp: active_edges_def valid_refs_def)
  then show ?thesis by (simp add: proto_only_def acyclic_def)
qed

text \<open>
  C1 fails on the code for this configuration. The assignments
  \<^verbatim>\<open>inDegree['__proto__'] = 0\<close> store nothing, the comparison \<^verbatim>\<open>inDegree[depName] === 0\<close>
  finds \<^verbatim>\<open>Object.prototype\<close> instead of a number, the queue stays empty, and the one
  active dependency is reported as part of a cycle, with an empty list of cycles,
  instead of being returned as the order.
\<close>

theorem resolveBuildOrder_proto_key:
  "active_keys proto_only = [''__proto__'']
   \<and> declared_deps proto_only ''__proto__'' = []
   \<and> fst (init_graph [''__proto__''] (\<lparr>graph_own = [], graph_proto = None\<rparr>, []))
       = \<lparr>graph_own = [], graph_proto = Some []\<rparr>
   \<and> snd (init_graph [''__proto__''] (\<lparr>graph_own = [], graph_proto = None\<rparr>, [])) = []
   \<and> resolveBuildOrder (Some (example_config proto_only)) = Inl (CircularDependencyError [])
   \<and> resolve_error_message (CircularDependencyError [])
       = ''Circular dependencies detected! Build cannot proceed.'' @ [CHR 0x0A]
         @ ''Cycles found:'' @ [CHR 0x0A] @ ''  '' @ [CHR 0x0A, CHR 0x0A]
         @ ''Please remove these circular dependencies from your buildConfig.json''"
proof -
  have "resolveBuildOrder (Some (example_config proto_only)) = Inl (CircularDependencyError [])"
    by code_simp
  then show ?thesis
    by (simp add: proto_only_def active_keys_def declared_deps_def example_dep_def
        graph_store_def set_in_degree_def resolve_error_message_def)
qed

subsection \<open>Cycles\<close>

fun chain :: "dep_table \<Rightarrow> string list \<Rightarrow> bool" where
  "chain tbl [] = True"
| "chain tbl [x] = True"
| "chain tbl (x # y # ys) = (y \<in> set (declared_deps tbl x) \<and> chain tbl (y # ys))"

definition closes :: "dep_table \<Rightarrow> string list \<Rightarrow> bool" where
  "closes tbl c \<longleftrightarrow> 2 \<le> length c \<and> hd c = last c \<and> chain tbl c"

text \<open>Scenario B of the specification: \<open>a\<close> and \<open>b\<close> depend on each other.\<close>

definition scenario_B :: dep_table where
  "scenario_B = [(''a'', example_dep [''b''] False), (''b'', example_dep [''a''] False)]"

lemma chain_snoc:
  "chain tbl (xs @ [y]) \<longleftrightarrow>
     chain tbl xs \<and> (xs \<noteq> [] \<longrightarrow> y \<in> set (declared_deps tbl (last xs)))"
  by (induction tbl xs rule: chain.induct) auto

lemma chain_tl: "chain tbl (x # xs) \<Longrightarrow> chain tbl xs"
  by (cases xs) auto

lemma chain_dropWhile: "chain tbl xs \<Longrightarrow> chain tbl (dropWhile P xs)"
  by (induction xs) (auto dest: chain_tl)

lemma dfs_visiting:
  "visiting (dfs tbl node path st) = visiting st"
  "visiting (dfs_each tbl ds path st) = visiting st"
proof (induction tbl node path st and tbl ds path st rule: dfs_dfs_each.induct)
  case (1 tbl node path st)
  then show ?case by (subst dfs.simps) (auto simp: Let_def)
next
  case (2 tbl path st)
  show ?case by simp
next
  case (3 tbl dep rest path st)
  then show ?case by simp
qed

lemma cycle_closes:
  assumes "chain tbl path" and "node \<in> set path" and "node \<in> set (declared_deps tbl (last path))"
  shows "closes tbl (slice_from path (indexOf path node) @ [node])"
proof -
  let ?c = "dropWhile (\<lambda>y. y \<noteq> node) path"
  from assms(2) have ne: "?c \<noteq> []" by simp
  then have hd: "hd ?c = node" using hd_dropWhile [of "\<lambda>y. y \<noteq> node" path] by simp
  from assms(2) have "slice_from path (indexOf path node) = ?c"
    by (simp add: slice_from_def indexOf_def dropWhile_eq_drop)
  moreover from ne have "last ?c = last path"
    by (metis last_appendR takeWhile_dropWhile_id)
  with assms(1,3) ne have "chain tbl (?c @ [node])"
    by (simp add: chain_snoc chain_dropWhile)
  moreover from ne hd have "hd (?c @ [node]) = last (?c @ [node])" by simp
  moreover from ne have "2 \<le> length (?c @ [node])" by (cases ?c) auto
  ultimately show ?thesis by (simp add: closes_def)
qed

lemma dfs_closes:
  "chain tbl path \<Longrightarrow> visiting st \<subseteq> set path \<Longrightarrow>
     (path \<noteq> [] \<longrightarrow> node \<in> set (declared_deps tbl (last path))) \<Longrightarrow>
     \<forall>c\<in>set (cycles st). closes tbl c \<Longrightarrow>
     \<forall>c\<in>set (cycles (dfs tbl node path st)). closes tbl c"
  "chain tbl path \<Longrightarrow> visiting st \<subseteq> set path \<Longrightarrow> path \<noteq> [] \<Longrightarrow>
     set ds \<subseteq> set (declared_deps tbl (last path)) \<Longrightarrow>
     \<forall>c\<in>set (cycles st). closes tbl c \<Longrightarrow>
     \<forall>c\<in>set (cycles (dfs_each tbl ds path st)). closes tbl c"
proof (induction tbl node path st and tbl ds path st rule: dfs_dfs_each.induct)
  case (1 tbl node path st)
  show ?case
  proof (cases "node \<in> visiting st")
    case True
    with "1.prems"(2) have "node \<in> set path" by auto
    with "1.prems"(1,3) have "closes tbl (slice_from path (indexOf path node) @ [node])"
      by (intro cycle_closes) auto
    with True "1.prems"(4) show ?thesis by (subst dfs.simps) (simp add: Let_def)
  next
    case False
    note nv = this
    show ?thesis
    proof (cases "node \<in> visited st")
      case True
      with nv "1.prems"(4) show ?thesis by (subst dfs.simps) simp
    next
      case False
      let ?st1 = "st\<lparr>visiting := insert node (visiting st)\<rparr>"
      have "\<forall>c\<in>set (cycles (dfs_each tbl (declared_deps tbl node) (path @ [node]) ?st1)).
              closes tbl c"
      proof (rule "1.IH" [OF nv False refl refl])
        from "1.prems"(1,3) show "chain tbl (path @ [node])" by (simp add: chain_snoc)
        from "1.prems"(2) show "visiting ?st1 \<subseteq> set (path @ [node])" by auto
        show "path @ [node] \<noteq> []" by simp
        show "set (declared_deps tbl node) \<subseteq> set (declared_deps tbl (last (path @ [node])))"
          by simp
        from "1.prems"(4) show "\<forall>c\<in>set (cycles ?st1). closes tbl c" by simp
      qed
      with nv False show ?thesis by (subst dfs.simps) (simp add: Let_def)
    qed
  qed
next
  case (2 tbl path st)
  then show ?case by simp
next
  case (3 tbl dep rest path st)
  from "3.prems" have "\<forall>c\<in>set (cycles (dfs tbl dep path st)). closes tbl c"
    by (intro "3.IH"(1)) auto
  moreover from "3.prems"(2) have "visiting (dfs tbl dep path st) \<subseteq> set path"
    by (simp add: dfs_visiting)
  ultimately have "\<forall>c\<in>set (cycles (dfs_each tbl rest path (dfs tbl dep path st))). closes tbl c"
    using "3.prems" by (intro "3.IH"(2)) auto
  then show ?case by simp
qed

lemma detect_loop_closes:
  "visiting st = {} \<Longrightarrow> \<forall>c\<in>set (cycles st). closes tbl c \<Longrightarrow>
     \<forall>c\<in>set (cycles (detect_loop tbl ns st)). closes tbl c"
proof (induction ns arbitrary: st)
  case Nil
  then show ?case by simp
next
  case (Cons n ns)
  from Cons.prems have "\<forall>c\<in>set (cycles (dfs tbl n [] st)). closes tbl c"
    by (intro dfs_closes(1)) auto
  moreover from Cons.prems(1) have "visiting (dfs tbl n [] st) = {}"
    by (simp add: dfs_visiting)
  ultimately have "\<forall>c\<in>set (cycles (detect_loop tbl ns (dfs tbl n [] st))). closes tbl c"
    by (rule Cons.IH [rotated])
  moreover from Cons.prems have "\<forall>c\<in>set (cycles (detect_loop tbl ns st)). closes tbl c"
    by (rule Cons.IH)
  ultimately show ?case by simp
qed

lemma detectCycles_closes: "\<forall>c\<in>set (detectCycles tbl unvisited). closes tbl c"
  unfolding detectCycles_def by (rule detect_loop_closes) simp_all


lemma appears_before_trancl:
  assumes inv: "kahn_inv tbl names i [] r"
  shows "(x, y) \<in> (active_edges tbl)\<^sup>+ \<Longrightarrow> y \<in> set r \<Longrightarrow> appears_before r x y"
proof (induction rule: trancl_induct)
  case (base y)
  then show ?case
    using kahn_inv_ordered [OF inv] by (simp add: active_edges_def)
next
  case (step y z)
  from step.hyps(2) step.prems have yz: "appears_before r y z"
    using kahn_inv_ordered [OF inv] by (simp add: active_edges_def)
  then have "y \<in> set r" by (auto simp: appears_before_def)
  then have xy: "appears_before r x y" by (rule step.IH)
  from inv have "distinct r" by (simp add: kahn_inv_def)
  with xy yz show ?case
    unfolding appears_before_def
    by (metis less_trans nth_eq_iff_index_eq)
qed

lemma circular_error_cycles:
  assumes "resolveBuildOrder (Some cfg) = Inl (CircularDependencyError cs)"
  shows "\<exists>tbl unvisited. deps cfg = Some tbl \<and> cs = detectCycles tbl unvisited"
  using assms unfolding resolveBuildOrder_def
  by (auto simp: Let_def dest: build_graph_error
      split: option.splits prod.splits if_splits sum.splits)

text \<open>
  C2. When the active nodes hold a cycle (some active \<open>a\<close> reaches itself along
  \<^verbatim>\<open>deps\<close> edges between active nodes), \<^verbatim>\<open>resolveBuildOrder\<close> throws and returns no order;
  and every cycle the circular-dependency error reports closes: it has at least two
  entries, each entry after the first is in the \<^verbatim>\<open>deps\<close> of the entry before it, and the
  last entry is the first one again.
\<close>

theorem resolveBuildOrder_cycle:
  assumes cfg: "deps cfg = Some tbl" and dist: "distinct (map fst tbl)"
    and cyc: "(a, a) \<in> (active_edges tbl)\<^sup>+"
  shows "(\<exists>e. resolveBuildOrder (Some cfg) = Inl e)
         \<and> (\<forall>cs. resolveBuildOrder (Some cfg) = Inl (CircularDependencyError cs)
               \<longrightarrow> (\<forall>c\<in>set cs. closes tbl c))"
proof
  let ?N = "active_keys tbl"
  let ?L = "filter (\<lambda>n. n \<noteq> ''__proto__'') ?N"
  show "\<exists>e. resolveBuildOrder (Some cfg) = Inl e"
  proof (cases "find_invalid tbl (skipped_keys tbl) ?N [] = []")
    case False
    with cfg show ?thesis
      by (simp add: resolveBuildOrder_def partition_deps_eq)
  next
    case True
    from resolveBuildOrder_kahn [OF cfg dist True]
    consider (thrown) e where "resolveBuildOrder (Some cfg) = Inl e"
      | (built) i r where "kahn_inv tbl ?L i [] r"
          "resolveBuildOrder (Some cfg) =
             (if length r \<noteq> length ?N
              then Inl (CircularDependencyError (detectCycles tbl (filter (\<lambda>n. n \<notin> set r) ?N)))
              else Inr r)"
      by blast
    then show ?thesis
    proof cases
      case thrown
      then show ?thesis by blast
    next
      case built
      note inv = built(1) and res = built(2)
      from inv have dr: "distinct r" and sub: "set r \<subseteq> set ?L"
        by (simp_all add: kahn_inv_def)
      from cyc have "a \<in> set ?N"
        by (auto dest!: tranclD2 simp: active_edges_def)
      have "a \<notin> set r"
      proof
        assume "a \<in> set r"
        with appears_before_trancl [OF inv cyc] have "appears_before r a a" .
        with dr show False
          unfolding appears_before_def by (metis less_irrefl nth_eq_iff_index_eq less_trans)
      qed
      with \<open>a \<in> set ?N\<close> sub have "set r \<subset> set ?N" by auto
      then have "card (set r) < card (set ?N)"
        by (intro psubset_card_mono) simp_all
      with dr have "length r < length ?N"
        using card_length [of ?N] by (simp add: distinct_card)
      with res show ?thesis by simp
    qed
  qed
next
  show "\<forall>cs. resolveBuildOrder (Some cfg) = Inl (CircularDependencyError cs)
          \<longrightarrow> (\<forall>c\<in>set cs. closes tbl c)"
    using circular_error_cycles [of cfg] cfg detectCycles_closes by fastforce
qed

theorem resolveBuildOrder_cycle_witness:
  "deps (example_config scenario_B) = Some scenario_B
   \<and> distinct (map fst scenario_B) \<and> (''a'', ''a'') \<in> (active_edges scenario_B)\<^sup>+
   \<and> resolveBuildOrder (Some (example_config scenario_B))
       = Inl (CircularDependencyError [[''a'', ''b'', ''a'']])
   \<and> closes scenario_B [''a'', ''b'', ''a'']"
proof -
  have h1: "deps (example_config scenario_B) = Some scenario_B"
    by (simp add: example_config_def)
  have h2: "distinct (map fst scenario_B)"
    by (simp add: scenario_B_def)
  have "(''a'', ''b'') \<in> active_edges scenario_B" "(''b'', ''a'') \<in> active_edges scenario_B"
    by (simp_all add: active_edges_def active_keys_def scenario_B_def example_dep_def
        declared_deps_def)
  then have h3: "(''a'', ''a'') \<in> (active_edges scenario_B)\<^sup>+"
    by (rule trancl_trans [OF r_into_trancl r_into_trancl])
  have r: "resolveBuildOrder (Some (example_config scenario_B))
      = Inl (CircularDependencyError [[''a'', ''b'', ''a'']])"
    by code_simp
  with resolveBuildOrder_cycle [OF h1 h2 h3] have "closes scenario_B [''a'', ''b'', ''a'']"
    by simp
  with h1 h2 h3 r show ?thesis by simp
qed

section \<open>config-validator.js\<close>

text \<open>
  A thrown \<^verbatim>\<open>Error\<close>, with its message.
\<close>

datatype exn = Error (message: string)

text \<open>
  The errors the loop body of \<^verbatim>\<open>validateBuildConfig\<close> pushes for one dependency, in the
  order of the pushes. \<open>shallow\<close> and \<open>initSubmodules\<close> are \<open>None\<close> when the field is not
  of type boolean. \<open>dep_deps\<close> holds an array whenever it is present, so the branch
  \<^verbatim>\<open>deps must be an array\<close> has no counterpart; an array is truthy also when empty.
  \<^verbatim>\<open>!config.deps[depRef]\<close> holds when the reference is neither a key of \<^verbatim>\<open>deps\<close> nor the name
  of a member \<^verbatim>\<open>deps\<close> inherits, all of which are truthy.
\<close>

definition dep_prefix :: "string \<Rightarrow> string" where
  "dep_prefix depKey = ''deps['' @ [CHR 0x22] @ depKey @ [CHR 0x22] @ '']''"

definition validate_dep :: "dep_table \<Rightarrow> string list \<Rightarrow> string \<times> dep_config \<Rightarrow> string list" where
  "validate_dep tbl depNames entry =
     (case entry of (depKey, dep) \<Rightarrow>
        (let prefix = dep_prefix depKey;
             hasDefaultVersion = (defaultVersion dep \<noteq> None);
             hasBranch = (branch dep \<noteq> None)
         in (if name dep = [] then [prefix @ '' is missing required field: name''] else [])
            @ (case git dep of
                 None \<Rightarrow> [prefix @ '' is missing required field: git (must be an object)'']
               | Some g \<Rightarrow>
                   (if url g = [] then [prefix @ ''.git is missing required field: url''] else [])
                   @ (if shallow g = None then [prefix @ ''.git.shallow must be a boolean'']
                      else [])
                   @ (if initSubmodules g = None
                      then [prefix @ ''.git.initSubmodules must be a boolean''] else []))
            @ (if \<not> hasDefaultVersion \<and> \<not> hasBranch
               then [prefix @ '' must have either defaultVersion or branch specified. ''
                       @ ''If defaultVersion is null, branch is required.'']
               else [])
            @ (case dep_deps dep of
                 None \<Rightarrow> []
               | Some refs \<Rightarrow>
                   concat (map (\<lambda>depRef.
                     if map_of tbl depRef = None \<and> depRef \<notin> set object_prototype_names
                     then [prefix @ ''.deps references unknown dependency '' @ [CHR 0x22] @ depRef
                             @ [CHR 0x22] @ ''. Available dependencies: '' @ join '', '' depNames]
                     else []) refs))))"

definition validateBuildConfig :: "build_config option \<Rightarrow> exn + unit" where
  "validateBuildConfig config =
     (case config of
        None \<Rightarrow> Inl (Error ''Build configuration is null or undefined'')
      | Some cfg \<Rightarrow>
          if version cfg = [] then Inl (Error ''Build configuration must have a version field'')
          else
            (case deps cfg of
               None \<Rightarrow> Inl (Error ''Build configuration must have a deps object'')
             | Some tbl \<Rightarrow>
                 (let depNames = map fst tbl;
                      errors = concat (map (validate_dep tbl depNames) tbl)
                  in if length errors > 0
                     then Inl (Error (''Build configuration validation failed:'' @ [CHR 0x0A]
                                      @ ''  '' @ join ([CHR 0x0A] @ ''  '') errors))
                     else Inr ())))"

text \<open>
  The configuration whose only dependency is called \<^verbatim>\<open>__proto__\<close> passes validation. So
  does a reference to \<^verbatim>\<open>constructor\<close>, which is no dependency; \<^verbatim>\<open>resolveBuildOrder\<close> then
  fails when it builds the graph.
\<close>

lemma proto_only_validates: "validateBuildConfig (Some (example_config proto_only)) = Inr ()"
  by (simp add: proto_only_def example_dep_def example_config_def validateBuildConfig_def
      validate_dep_def)

lemma inherited_reference:
  "validateBuildConfig (Some (example_config [(''a'', example_dep [''constructor''] False)]))
     = Inr ()"
  "resolveBuildOrder (Some (example_config [(''a'', example_dep [''constructor''] False)]))
     = Inl (TypeError ''graph[dependency].push is not a function'')"
  by (simp add: example_dep_def example_config_def validateBuildConfig_def validate_dep_def
      object_prototype_names_def, code_simp)





section \<open>The world outside\<close>

text \<open>
  The file system, the \<^verbatim>\<open>git\<close> processes, Node's \<^verbatim>\<open>path\<close> module and the modules loaded
  by \<^verbatim>\<open>import()\<close> are not part of the sources. They act on a world of an arbitrary type
  \<open>'w\<close> through the operations of an environment; the model records every call that
  changes or starts something in a trace, in the order of the calls.
\<close>

record exec_result =
  exec_ok :: bool
  stdout :: string
  stderr :: string

datatype event =
    Mkdir string
  | RmDir string
  | Git "string list"
  | ImportTool string
  | ConfigureTool string
  | ToolCleanup string
  | RestoreEnv

record 'w state =
  trace :: "event list"
  world :: 'w

record 'w fs_env =
  existsSync :: "string \<Rightarrow> 'w \<Rightarrow> bool"
  mkdirSync :: "string \<Rightarrow> 'w \<Rightarrow> 'w"
  rmSync :: "string \<Rightarrow> 'w \<Rightarrow> 'w"
  runCommand :: "string \<Rightarrow> string list \<Rightarrow> 'w \<Rightarrow> exec_result \<times> 'w"
  dirname :: "string \<Rightarrow> string"
  path_join :: "string \<Rightarrow> string \<Rightarrow> string"
  path_resolve :: "string \<Rightarrow> string \<Rightarrow> string"

text \<open>\<^verbatim>\<open>runner('git', args)\<close> with the default runner \<^verbatim>\<open>runCommand\<close>.\<close>

definition run_git :: "('w, 'e) fs_env_scheme \<Rightarrow> string list \<Rightarrow> 'w state \<Rightarrow> exec_result \<times> 'w state" where
  "run_git env args st =
     (case runCommand env ''git'' args (world st) of
        (result, w) \<Rightarrow> (result, st\<lparr>trace := trace st @ [Git args], world := w\<rparr>))"

section \<open>file-system.js\<close>

definition ensureDirectory :: "('w, 'e) fs_env_scheme \<Rightarrow> string \<Rightarrow> 'w state \<Rightarrow> (exn + string) \<times> 'w state" where
  "ensureDirectory env targetPath st =
     (if targetPath = [] then (Inl (Error ''ensureDirectory requires a path argument''), st)
      else if \<not> existsSync env targetPath (world st)
      then (Inr targetPath,
            st\<lparr>trace := trace st @ [Mkdir targetPath],
               world := mkdirSync env targetPath (world st)\<rparr>)
      else (Inr targetPath, st))"

section \<open>git-operations.js\<close>

text \<open>
  \<^verbatim>\<open>String.prototype.trim\<close> on strings of ASCII characters: tab, line feed, vertical tab,
  form feed, carriage return and space are white space.
\<close>

definition is_space :: "char \<Rightarrow> bool" where
  "is_space c \<longleftrightarrow> c \<in> set [CHR 0x09, CHR 0x0A, CHR 0x0B, CHR 0x0C, CHR 0x0D, CHR '' '']"

definition trim :: "string \<Rightarrow> string" where
  "trim s = rev (dropWhile is_space (rev (dropWhile is_space s)))"

text \<open>
  A local variable whose name is also a field of the configuration carries a prime
  (\<open>shallow'\<close>, \<open>initSubmodules'\<close>).

  The functions of this module take an \<^verbatim>\<open>options\<close> object; its fields are the arguments of
  the model, an \<open>option\<close> where the destructuring gives a default. \<^verbatim>\<open>runner\<close> is left at its
  default \<^verbatim>\<open>runCommand\<close>, as \<^verbatim>\<open>prepareRepository\<close> leaves it.
\<close>

subsection \<open>cloneGitRepository\<close>

record clone_result =
  clone_ok :: bool
  clone_skipped :: bool
  clone_reason :: "string option"
  clone_path :: string
  clone_stdout :: string
  clone_stderr :: string

definition cloneGitRepository ::
  "('w, 'e) fs_env_scheme \<Rightarrow> string \<Rightarrow> string \<Rightarrow> bool option \<Rightarrow> string list \<Rightarrow> 'w state
     \<Rightarrow> (exn + clone_result) \<times> 'w state" where
  "cloneGitRepository env repoUrl destination shallow_opt extraArgs st =
     (let shallow' = (case shallow_opt of None \<Rightarrow> True | Some b \<Rightarrow> b)
      in if repoUrl = [] then (Inl (Error ''cloneGitRepository requires a repoUrl''), st)
         else if destination = []
         then (Inl (Error ''cloneGitRepository requires a destination path''), st)
         else
           (let parent = dirname env (destination)
            in case ensureDirectory env parent st of
                 (Inl e, st1) \<Rightarrow> (Inl e, st1)
               | (Inr _, st1) \<Rightarrow>
                   if existsSync env (destination) (world st1)
                   then (Inr \<lparr>clone_ok = True, clone_skipped = True,
                               clone_reason = Some ''already cloned'',
                               clone_path = destination,
                               clone_stdout = [], clone_stderr = []\<rparr>, st1)
                   else
                     (let args = [''clone'', repoUrl, destination]
                                   @ extraArgs;
                          args = (if shallow' then take 1 args @ [''--depth'', ''1''] @ drop 1 args
                                  else args)
                      in case run_git env args st1 of
                           (result, st2) \<Rightarrow>
                             (Inr \<lparr>clone_ok = exec_ok result, clone_skipped = False,
                                    clone_reason = None, clone_path = destination,
                                    clone_stdout = stdout result,
                                    clone_stderr = stderr result\<rparr>, st2))))"

subsection \<open>updateGitSubmodules\<close>

definition updateGitSubmodules ::
  "('w, 'e) fs_env_scheme \<Rightarrow> string \<Rightarrow> bool \<Rightarrow> string list \<Rightarrow> 'w state
     \<Rightarrow> (exn + exec_result) \<times> 'w state" where
  "updateGitSubmodules env repoPath recursive extra st =
     (if repoPath = [] then (Inl (Error ''updateGitSubmodules requires a repository path''), st)
      else
        (let args = [''-C'', repoPath, ''submodule'', ''update'', ''--init''];
             args = (if recursive then args @ [''--recursive''] else args);
             args = (if length extra > 0 then args @ extra else args)
         in case run_git env args st of (result, st1) \<Rightarrow> (Inr result, st1)))"

subsection \<open>checkoutGitRef\<close>

definition collectOutput :: "exec_result \<Rightarrow> string" where
  "collectOutput execution =
     join [CHR 0x0A]
       (filter (\<lambda>p. p \<noteq> [])
          ((if stdout execution \<noteq> [] then [trim (stdout execution)] else [])
           @ (if stderr execution \<noteq> [] then [trim (stderr execution)] else [])))"

text \<open>
  \<^verbatim>\<open>collectUniqueRefs\<close>: \<^verbatim>\<open>enqueue\<close> on one string; \<^verbatim>\<open>primary\<close> is a string or \<^verbatim>\<open>null\<close>,
  \<^verbatim>\<open>fallback\<close> an array of strings, whose entries \<^verbatim>\<open>enqueue\<close> takes one by one.
\<close>

definition enqueue :: "string \<Rightarrow> string list \<times> string set \<Rightarrow> string list \<times> string set" where
  "enqueue v acc =
     (case acc of (refs, seen) \<Rightarrow>
        (let stringValue = trim v
         in if stringValue = [] \<or> stringValue \<in> seen then (refs, seen)
            else (refs @ [stringValue], insert stringValue seen)))"

definition collectUniqueRefs :: "string option \<Rightarrow> string list \<Rightarrow> string list" where
  "collectUniqueRefs primary fallback =
     fst (fold enqueue fallback
            (case primary of None \<Rightarrow> ([], {}) | Some v \<Rightarrow> enqueue v ([], {})))"

text \<open>
  \<^verbatim>\<open>attemptCheckoutVariants\<close>; the loop over \<^verbatim>\<open>variants\<close> carries \<^verbatim>\<open>outputs\<close>.
\<close>

fun checkout_variants ::
  "('w, 'e) fs_env_scheme \<Rightarrow> string \<Rightarrow> bool \<Rightarrow> string list \<Rightarrow> string list \<Rightarrow> 'w state
     \<Rightarrow> (bool \<times> string) \<times> 'w state" where
  "checkout_variants env repoPath isTag [] outputs st =
     ((False, join [CHR 0x0A] (filter (\<lambda>p. p \<noteq> []) outputs)), st)"
| "checkout_variants env repoPath isTag (variant # rest) outputs st =
     (let args = [''-C'', repoPath, ''checkout''] @ (if isTag then [''--detach''] else [])
                   @ [variant]
      in case run_git env args st of
           (result, st1) \<Rightarrow>
             if exec_ok result then ((True, collectOutput result), st1)
             else checkout_variants env repoPath isTag rest (outputs @ [collectOutput result]) st1)"

definition attemptCheckoutVariants ::
  "('w, 'e) fs_env_scheme \<Rightarrow> string \<Rightarrow> string \<Rightarrow> bool \<Rightarrow> 'w state \<Rightarrow> (bool \<times> string) \<times> 'w state" where
  "attemptCheckoutVariants env repoPath ref isTag st =
     checkout_variants env repoPath isTag (if isTag then [''tags/'' @ ref, ref] else [ref]) [] st"

datatype ref_type = Tag | Branch
datatype checkout_step = Fetch | Checkout

record checkout_error =
  err_ref :: string
  err_type :: ref_type
  err_step :: checkout_step
  err_output :: string

datatype checkout_result =
    CheckoutSkipped
  | CheckedOut string ref_type
  | CheckoutFailed "checkout_error list"

text \<open>
  The body of the loop \<^verbatim>\<open>for (const ref of candidates)\<close> has two halves. The first
  fetches the reference as a tag and checks it out; \<open>None\<close> stands for its
  \<^verbatim>\<open>return {ok: true, ref, type: 'tag'}\<close>, \<open>Some\<close> holds the error it pushes.
\<close>

definition tag_attempt ::
  "('w, 'e) fs_env_scheme \<Rightarrow> string \<Rightarrow> string \<Rightarrow> 'w state \<Rightarrow> checkout_error option \<times> 'w state" where
  "tag_attempt env repoPath trimmedRef st =
     (case run_git env [''-C'', repoPath, ''fetch'', ''--depth'', ''1'', ''origin'', ''tag'',
                        trimmedRef] st of
        (tagFetch, st1) \<Rightarrow>
          if exec_ok tagFetch then
            (case attemptCheckoutVariants env repoPath trimmedRef True st1 of
               ((ok, output), st2) \<Rightarrow>
                 if ok then (None, st2)
                 else (Some \<lparr>err_ref = trimmedRef, err_type = Tag, err_step = Checkout,
                              err_output = output\<rparr>, st2))
          else (Some \<lparr>err_ref = trimmedRef, err_type = Tag, err_step = Fetch,
                       err_output = collectOutput tagFetch\<rparr>, st1))"

text \<open>
  The second half fetches the same reference as a branch and checks it out; \<open>None\<close>
  stands for its \<^verbatim>\<open>return {ok: true, ref, type: 'branch'}\<close>.
\<close>

definition branch_attempt ::
  "('w, 'e) fs_env_scheme \<Rightarrow> string \<Rightarrow> string \<Rightarrow> 'w state \<Rightarrow> checkout_error option \<times> 'w state" where
  "branch_attempt env repoPath trimmedRef st =
     (case run_git env [''-C'', repoPath, ''fetch'', ''--depth'', ''1'', ''origin'', trimmedRef] st of
        (branchFetch, st1) \<Rightarrow>
          if exec_ok branchFetch then
            (case run_git env [''-C'', repoPath, ''checkout'', trimmedRef] st1 of
               (branchCheckout, st2) \<Rightarrow>
                 if exec_ok branchCheckout then (None, st2)
                 else (Some \<lparr>err_ref = trimmedRef, err_type = Branch, err_step = Checkout,
                              err_output = collectOutput branchCheckout\<rparr>, st2))
          else (Some \<lparr>err_ref = trimmedRef, err_type = Branch, err_step = Fetch,
                       err_output = collectOutput branchFetch\<rparr>, st1))"

text \<open>The loop; after the two halves of a candidate have failed the next one is tried.\<close>

fun checkout_candidates ::
  "('w, 'e) fs_env_scheme \<Rightarrow> string \<Rightarrow> string list \<Rightarrow> checkout_error list \<Rightarrow> 'w state
     \<Rightarrow> checkout_result \<times> 'w state" where
  "checkout_candidates env repoPath [] errors st = (CheckoutFailed errors, st)"
| "checkout_candidates env repoPath (ref # rest) errors st =
     (let trimmedRef = trim ref
      in if trimmedRef = [] then checkout_candidates env repoPath rest errors st
         else
           (case tag_attempt env repoPath trimmedRef st of
              (None, st1) \<Rightarrow> (CheckedOut trimmedRef Tag, st1)
            | (Some tagError, st1) \<Rightarrow>
                (case branch_attempt env repoPath trimmedRef st1 of
                   (None, st2) \<Rightarrow> (CheckedOut trimmedRef Branch, st2)
                 | (Some branchError, st2) \<Rightarrow>
                     checkout_candidates env repoPath rest
                       (errors @ [tagError, branchError]) st2)))"

definition checkoutGitRef ::
  "('w, 'e) fs_env_scheme \<Rightarrow> string \<Rightarrow> string option \<Rightarrow> string list \<Rightarrow> 'w state
     \<Rightarrow> (exn + checkout_result) \<times> 'w state" where
  "checkoutGitRef env repoPath primaryRef fallbackRefs st =
     (if repoPath = [] then (Inl (Error ''checkoutGitRef requires a repository path''), st)
      else
        (let candidates = collectUniqueRefs primaryRef fallbackRefs
         in if length candidates = 0 then (Inr CheckoutSkipped, st)
            else (case checkout_candidates env repoPath candidates [] st of
                    (r, st1) \<Rightarrow> (Inr r, st1))))"


section \<open>repo-manager.js\<close>

record repo_result =
  repo_ok :: bool
  repo_root :: string
  repo_version :: "string option"
  repo_branch :: "string option"
  repo_skipped :: bool

text \<open>\<^verbatim>\<open>depName.replace(/[^a-zA-Z0-9._-]/g, '-')\<close> on a string of ASCII characters.\<close>

definition sanitize :: "string \<Rightarrow> string" where
  "sanitize depName =
     map (\<lambda>c. if c \<in> set (''abcdefghijklmnopqrstuvwxyz'' @ ''ABCDEFGHIJKLMNOPQRSTUVWXYZ''
                           @ ''0123456789'' @ ''._-'') then c else CHR ''-'') depName"

text \<open>
  The fallback of a tag: the same version with the leading \<^verbatim>\<open>v\<close> dropped or added.
\<close>

definition fallback_refs :: "bool \<Rightarrow> string \<Rightarrow> string list" where
  "fallback_refs isBranch trimmedRef =
     (if \<not> isBranch \<and> trimmedRef \<noteq> []
      then [if take 1 trimmedRef = ''v'' then drop 1 trimmedRef else ''v'' @ trimmedRef]
      else [])"

definition checkout_failure_detail :: "checkout_error list \<Rightarrow> string" where
  "checkout_failure_detail errors =
     (let detail =
            join [CHR 0x0A]
              (map (\<lambda>e. [CHR '' '', CHR '' '', CHR 0xC2, CHR 0xB7, CHR '' ''] @ err_ref e @ '' ''
                         @ (case err_type e of Tag \<Rightarrow> ''tag'' | Branch \<Rightarrow> ''branch'') @ '' ''
                         @ (case err_step e of Fetch \<Rightarrow> ''fetch'' | Checkout \<Rightarrow> ''checkout'')
                         @ (if err_output e \<noteq> [] then [CHR 0x0A] @ ''    '' @ err_output e
                            else [])) errors)
      in if detail = [] then ''unknown error'' else detail)"

text \<open>
  A statement that may throw, followed by the rest of the function: an exception passes
  through, with the state as it was when it was thrown.
\<close>

definition and_then ::
  "(exn + 'a) \<times> 's \<Rightarrow> ('a \<Rightarrow> 's \<Rightarrow> (exn + 'b) \<times> 's) \<Rightarrow> (exn + 'b) \<times> 's" where
  "and_then r f = (case r of (Inl e, s) \<Rightarrow> (Inl e, s) | (Inr a, s) \<Rightarrow> f a s)"

text \<open>
  \<^verbatim>\<open>cloneResult.stderr || cloneResult.stdout || 'unknown error'\<close>.
\<close>

definition first_nonempty :: "string \<Rightarrow> string \<Rightarrow> string" where
  "first_nonempty err out =
     (if err \<noteq> [] then err else if out \<noteq> [] then out else ''unknown error'')"

text \<open>
  The part of \<^verbatim>\<open>prepareRepository\<close> that determines what to check out and checks it out.
  \<^verbatim>\<open>if (checkoutRef)\<close> skips the checkout for an empty string.
\<close>

definition checkout_phase ::
  "('w, 'e) fs_env_scheme \<Rightarrow> dep_config \<Rightarrow> string \<Rightarrow> string \<Rightarrow> 'w state
     \<Rightarrow> (exn + unit) \<times> 'w state" where
  "checkout_phase env cfg depName repoRoot st =
     (case (case defaultVersion cfg of
              Some v \<Rightarrow> Some (v, False)
            | None \<Rightarrow> (case branch cfg of Some b \<Rightarrow> Some (b, True) | None \<Rightarrow> None)) of
        None \<Rightarrow>
          (Inl (Error (depName
                  @ '': either defaultVersion or branch must be specified in config'')), st)
      | Some (checkoutRef, isBranch) \<Rightarrow>
          if checkoutRef \<noteq> [] then
            (let trimmedRef = trim checkoutRef;
                 fallbackRefs = fallback_refs isBranch trimmedRef
             in and_then (checkoutGitRef env repoRoot (Some trimmedRef) fallbackRefs st)
                  (\<lambda>checkoutResult st1.
                     case checkoutResult of
                       CheckoutFailed errors \<Rightarrow>
                         (Inl (Error (''Failed to checkout '' @ depName @ '' reference ''
                                 @ [CHR 0x22] @ checkoutRef @ [CHR 0x22] @ ''.'' @ [CHR 0x0A]
                                 @ ''Attempts:'' @ [CHR 0x0A]
                                 @ checkout_failure_detail errors)), st1)
                     | _ \<Rightarrow> (Inr (), st1)))
          else (Inr (), st))"

definition submodule_phase ::
  "('w, 'e) fs_env_scheme \<Rightarrow> string \<Rightarrow> string \<Rightarrow> bool \<Rightarrow> 'w state \<Rightarrow> (exn + unit) \<times> 'w state" where
  "submodule_phase env depName repoRoot initSubmodules' st =
     (if initSubmodules' then
        and_then (updateGitSubmodules env repoRoot False [] st)
          (\<lambda>submoduleResult st1.
             if \<not> exec_ok submoduleResult
             then (Inl (Error (''Failed to initialize '' @ depName @ '' submodules:'' @ [CHR 0x0A]
                          @ first_nonempty (stderr submoduleResult) (stdout submoduleResult))),
                   st1)
             else (Inr (), st1))
      else (Inr (), st))"

definition prepareRepository ::
  "('w, 'e) fs_env_scheme \<Rightarrow> dep_config option \<Rightarrow> string \<Rightarrow> string \<Rightarrow> bool option \<Rightarrow> bool option
     \<Rightarrow> bool option \<Rightarrow> 'w state \<Rightarrow> (exn + repo_result) \<times> 'w state" where
  "prepareRepository env config depName gitRoot force_opt shallow_opt initSubmodules_opt st =
     (let force = (case force_opt of None \<Rightarrow> False | Some b \<Rightarrow> b);
          shallow' = (case shallow_opt of None \<Rightarrow> True | Some b \<Rightarrow> b);
          initSubmodules' = (case initSubmodules_opt of None \<Rightarrow> False | Some b \<Rightarrow> b)
      in case config of
           None \<Rightarrow> (Inl (Error (''prepareRepository: config is required for '' @ depName)), st)
         | Some cfg \<Rightarrow>
             if depName = [] then (Inl (Error ''prepareRepository: depName is required''), st)
             else if gitRoot = [] then (Inl (Error ''prepareRepository: gitRoot is required''), st)
             else if (case git cfg of None \<Rightarrow> True | Some g \<Rightarrow> url g = [])
             then (Inl (Error (''prepareRepository: '' @ depName
                          @ '' config is missing git.url'')), st)
             else
               and_then (ensureDirectory env gitRoot st)
                 (\<lambda>_ st1.
                    let sanitizedName = sanitize depName;
                        repoRoot = path_resolve env gitRoot sanitizedName;
                        st2 = (if force \<and> existsSync env repoRoot (world st1)
                               then st1\<lparr>trace := trace st1 @ [RmDir repoRoot],
                                       world := rmSync env repoRoot (world st1)\<rparr>
                               else st1)
                    in and_then
                         (cloneGitRepository env (case git cfg of None \<Rightarrow> [] | Some g \<Rightarrow> url g)
                            repoRoot (Some shallow') [] st2)
                         (\<lambda>cloneResult st3.
                            if \<not> clone_ok cloneResult \<and> \<not> clone_skipped cloneResult
                            then (Inl (Error (''Failed to clone '' @ depName @ '' repository: ''
                                         @ first_nonempty (clone_stderr cloneResult)
                                             (clone_stdout cloneResult))), st3)
                            else
                              and_then (checkout_phase env cfg depName repoRoot st3)
                                (\<lambda>_ st4.
                                   and_then
                                     (submodule_phase env depName repoRoot initSubmodules' st4)
                                     (\<lambda>_ st5.
                                        (Inr \<lparr>repo_ok = True, repo_root = repoRoot,
                                               repo_version = defaultVersion cfg,
                                               repo_branch = branch cfg,
                                               repo_skipped = clone_skipped cloneResult\<rparr>,
                                         st5))))))"

text \<open>A world in which every path exists and every command fails.\<close>

definition failing_env :: "unit fs_env" where
  "failing_env =
     \<lparr>existsSync = (\<lambda>p w. True), mkdirSync = (\<lambda>p w. w), rmSync = (\<lambda>p w. w),
      runCommand = (\<lambda>c args w. (\<lparr>exec_ok = False, stdout = [], stderr = ''fatal''\<rparr>, w)),
      dirname = (\<lambda>p. ''/build/.git.temp''), path_join = (\<lambda>a b. a @ ''/'' @ b),
      path_resolve = (\<lambda>a b. a @ ''/'' @ b)\<rparr>"


section \<open>Properties of the Git operations\<close>

text \<open>
  C9. With a repository URL and a destination that already exists,
  \<^verbatim>\<open>cloneGitRepository\<close> runs no command and changes nothing: it returns \<^verbatim>\<open>ok: true\<close> and
  \<^verbatim>\<open>skipped: true\<close>, and the trace and the world are as before, whatever the URL, the
  \<^verbatim>\<open>shallow\<close> flag and the extra arguments. The parent directory of a path that exists
  exists as well, and \<^verbatim>\<open>path.dirname\<close> never returns the empty string, so that
  \<^verbatim>\<open>ensureDirectory(parent)\<close> finds the parent in place.
\<close>

theorem cloneGitRepository_existing_destination:
  assumes "repoUrl \<noteq> []" and "destination \<noteq> []"
    and "existsSync env destination (world st)"
    and "dirname env destination \<noteq> []"
    and "existsSync env (dirname env destination) (world st)"
  shows "cloneGitRepository env repoUrl destination shallow_opt extraArgs st =
           (Inr \<lparr>clone_ok = True, clone_skipped = True, clone_reason = Some ''already cloned'',
                  clone_path = destination, clone_stdout = [], clone_stderr = []\<rparr>, st)"
  using assms by (simp add: cloneGitRepository_def ensureDirectory_def)

theorem cloneGitRepository_existing_destination_witness:
  "''https://example.org/lib.git'' \<noteq> [] \<and> ''/build/.git.temp/lib'' \<noteq> []
   \<and> existsSync failing_env ''/build/.git.temp/lib'' (world \<lparr>trace = [], world = ()\<rparr>)
   \<and> dirname failing_env ''/build/.git.temp/lib'' \<noteq> []
   \<and> existsSync failing_env (dirname failing_env ''/build/.git.temp/lib'')
         (world \<lparr>trace = [], world = ()\<rparr>)
   \<and> cloneGitRepository failing_env ''https://example.org/lib.git'' ''/build/.git.temp/lib''
         (Some False) [''--single-branch''] \<lparr>trace = [], world = ()\<rparr>
       = (Inr \<lparr>clone_ok = True, clone_skipped = True, clone_reason = Some ''already cloned'',
                clone_path = ''/build/.git.temp/lib'', clone_stdout = [], clone_stderr = []\<rparr>,
          \<lparr>trace = [], world = ()\<rparr>)"
  using cloneGitRepository_existing_destination
    [of "''https://example.org/lib.git''" "''/build/.git.temp/lib''" failing_env
       "\<lparr>trace = [], world = ()\<rparr>" "Some False" "[''--single-branch'']"]
  by (simp add: failing_env_def)

subsection \<open>The order of the checkout attempts\<close>

definition tag_fetch :: "string \<Rightarrow> string \<Rightarrow> event" where
  "tag_fetch repoPath r = Git [''-C'', repoPath, ''fetch'', ''--depth'', ''1'', ''origin'', ''tag'', r]"

definition branch_fetch :: "string \<Rightarrow> string \<Rightarrow> event" where
  "branch_fetch repoPath r = Git [''-C'', repoPath, ''fetch'', ''--depth'', ''1'', ''origin'', r]"

lemma trim_version [simp]: "trim ''1.2.3'' = ''1.2.3''" "trim ''v1.2.3'' = ''v1.2.3''"
  by (simp_all add: trim_def is_space_def)

lemma candidates_version [simp]:
  "collectUniqueRefs (Some ''1.2.3'') (fallback_refs False ''1.2.3'') = [''1.2.3'', ''v1.2.3'']"
  by (simp add: collectUniqueRefs_def fallback_refs_def enqueue_def Let_def)


lemma run_git_trace: "run_git env args st = (r, st1) \<Longrightarrow> trace st1 = trace st @ [Git args]"
  by (auto simp: run_git_def split: prod.splits)

lemma attemptCheckoutVariants_tag_trace:
  assumes "attemptCheckoutVariants env repoPath r True st = (res, st1)"
  shows "\<exists>vs. trace st1 = trace st @ vs
           \<and> subseq vs [Git [''-C'', repoPath, ''checkout'', ''--detach'', ''tags/'' @ r],
                        Git [''-C'', repoPath, ''checkout'', ''--detach'', r]]"
proof -
  let ?a1 = "[''-C'', repoPath, ''checkout'', ''--detach'', ''tags/'' @ r]"
  let ?a2 = "[''-C'', repoPath, ''checkout'', ''--detach'', r]"
  obtain r1 s1 where g1: "run_git env ?a1 st = (r1, s1)" by (cases "run_git env ?a1 st")
  obtain r2 s2 where g2: "run_git env ?a2 s1 = (r2, s2)" by (cases "run_git env ?a2 s1")
  note t1 = run_git_trace [OF g1] and t2 = run_git_trace [OF g2]
  show ?thesis
  proof (cases "exec_ok r1")
    case True
    with assms g1 have "st1 = s1" by (simp add: attemptCheckoutVariants_def)
    with t1 show ?thesis by simp
  next
    case False
    with assms g1 g2 have "st1 = s2"
      by (simp add: attemptCheckoutVariants_def split: if_splits)
    with t1 t2 show ?thesis by simp
  qed
qed

lemma tag_attempt_trace:
  assumes "tag_attempt env repoPath r st = (res, st1)"
  shows "\<exists>vs. trace st1 = trace st @ tag_fetch repoPath r # vs
           \<and> subseq vs [Git [''-C'', repoPath, ''checkout'', ''--detach'', ''tags/'' @ r],
                        Git [''-C'', repoPath, ''checkout'', ''--detach'', r]]"
proof -
  let ?tf = "[''-C'', repoPath, ''fetch'', ''--depth'', ''1'', ''origin'', ''tag'', r]"
  obtain f s1 where g: "run_git env ?tf st = (f, s1)" by (cases "run_git env ?tf st")
  obtain v s2 where a: "attemptCheckoutVariants env repoPath r True s1 = (v, s2)"
    by (cases "attemptCheckoutVariants env repoPath r True s1")
  note t1 = run_git_trace [OF g]
  show ?thesis
  proof (cases "exec_ok f")
    case True
    with assms g a have "st1 = s2"
      by (auto simp: tag_attempt_def split: prod.splits if_splits)
    with t1 attemptCheckoutVariants_tag_trace [OF a] show ?thesis
      by (auto simp: tag_fetch_def)
  next
    case False
    with assms g have "st1 = s1" by (simp add: tag_attempt_def)
    with t1 show ?thesis by (simp add: tag_fetch_def)
  qed
qed

lemma branch_attempt_trace:
  assumes "branch_attempt env repoPath r st = (res, st1)"
  shows "\<exists>vs. trace st1 = trace st @ branch_fetch repoPath r # vs
           \<and> subseq vs [Git [''-C'', repoPath, ''checkout'', r]]"
proof -
  let ?bf = "[''-C'', repoPath, ''fetch'', ''--depth'', ''1'', ''origin'', r]"
  let ?bc = "[''-C'', repoPath, ''checkout'', r]"
  obtain f s1 where g1: "run_git env ?bf st = (f, s1)" by (cases "run_git env ?bf st")
  obtain c s2 where g2: "run_git env ?bc s1 = (c, s2)" by (cases "run_git env ?bc s1")
  note t1 = run_git_trace [OF g1] and t2 = run_git_trace [OF g2]
  show ?thesis
  proof (cases "exec_ok f")
    case True
    with assms g1 g2 have "st1 = s2"
      by (auto simp: branch_attempt_def split: if_splits)
    with t1 t2 show ?thesis by (simp add: branch_fetch_def)
  next
    case False
    with assms g1 have "st1 = s1" by (simp add: branch_attempt_def)
    with t1 show ?thesis by (simp add: branch_fetch_def)
  qed
qed


text \<open>
  C5 as stated fails: where every command fails, the second attempt is the branch
  fetch of \<^verbatim>\<open>1.2.3\<close>, and the tag \<^verbatim>\<open>v1.2.3\<close> comes third.
\<close>

theorem checkout_order_counterexample:
  "trace (snd (prepareRepository failing_env (Some (example_dep [] False)) ''lib''
                 ''/build/.git.temp'' None (Some True) (Some False) \<lparr>trace = [], world = ()\<rparr>))
     = [tag_fetch ''/build/.git.temp/lib'' ''1.2.3'',
        branch_fetch ''/build/.git.temp/lib'' ''1.2.3'',
        tag_fetch ''/build/.git.temp/lib'' ''v1.2.3'',
        branch_fetch ''/build/.git.temp/lib'' ''v1.2.3'']"
  by code_simp

text \<open>
  A world in which the repository has the tag \<^verbatim>\<open>v1.2.3\<close> and neither a tag nor a branch
  \<^verbatim>\<open>1.2.3\<close>: the commands that name the tag \<^verbatim>\<open>v1.2.3\<close> succeed, every other one fails.
\<close>

definition tagged_v_env :: "unit fs_env" where
  "tagged_v_env =
     \<lparr>existsSync = (\<lambda>p w. True), mkdirSync = (\<lambda>p w. w), rmSync = (\<lambda>p w. w),
      runCommand = (\<lambda>c args w.
        if ''tag'' \<in> set args \<and> ''v1.2.3'' \<in> set args \<or> ''tags/v1.2.3'' \<in> set args
        then (\<lparr>exec_ok = True, stdout = [], stderr = []\<rparr>, w)
        else (\<lparr>exec_ok = False, stdout = [], stderr = ''fatal''\<rparr>, w)),
      dirname = (\<lambda>p. ''/build/.git.temp''), path_join = (\<lambda>a b. a @ ''/'' @ b),
      path_resolve = (\<lambda>a b. a @ ''/'' @ b)\<rparr>"

text \<open>
  C5, amended. For a dependency with \<^verbatim>\<open>defaultVersion\<close> \<^verbatim>\<open>1.2.3\<close> and any \<^verbatim>\<open>branch\<close>
  setting, the checkout of \<^verbatim>\<open>prepareRepository\<close> is this chain. It attempts the tag
  \<^verbatim>\<open>1.2.3\<close> (the tag fetch, then the detached checkouts) and is done when that succeeds. If
  it fails, it attempts the branch \<^verbatim>\<open>1.2.3\<close> (the branch fetch, then the checkout) and is
  done when that succeeds. Only if that fails too, it attempts the tag \<^verbatim>\<open>v1.2.3\<close>, and if
  that fails the branch \<^verbatim>\<open>v1.2.3\<close>. If all four attempts fail it throws, with the four
  errors in its message. Each attempt starts in the state the attempt before it left,
  so the commands run in this order; the state at the end is the state after the last
  attempt made, so no further command is run.
\<close>

theorem version_checkout_order:
  assumes dv: "defaultVersion cfg = Some ''1.2.3''" and rp: "repoRoot \<noteq> []"
  shows "\<exists>t1 s1 b1 s2 t2 s3 b2 s4 vs1 ws1 vs2 ws2.
           tag_attempt env repoRoot ''1.2.3'' st = (t1, s1)
         \<and> trace s1 = trace st @ tag_fetch repoRoot ''1.2.3'' # vs1
         \<and> subseq vs1 [Git [''-C'', repoRoot, ''checkout'', ''--detach'', ''tags/1.2.3''],
                        Git [''-C'', repoRoot, ''checkout'', ''--detach'', ''1.2.3'']]
         \<and> branch_attempt env repoRoot ''1.2.3'' s1 = (b1, s2)
         \<and> trace s2 = trace s1 @ branch_fetch repoRoot ''1.2.3'' # ws1
         \<and> subseq ws1 [Git [''-C'', repoRoot, ''checkout'', ''1.2.3'']]
         \<and> tag_attempt env repoRoot ''v1.2.3'' s2 = (t2, s3)
         \<and> trace s3 = trace s2 @ tag_fetch repoRoot ''v1.2.3'' # vs2
         \<and> subseq vs2 [Git [''-C'', repoRoot, ''checkout'', ''--detach'', ''tags/v1.2.3''],
                        Git [''-C'', repoRoot, ''checkout'', ''--detach'', ''v1.2.3'']]
         \<and> branch_attempt env repoRoot ''v1.2.3'' s3 = (b2, s4)
         \<and> trace s4 = trace s3 @ branch_fetch repoRoot ''v1.2.3'' # ws2
         \<and> subseq ws2 [Git [''-C'', repoRoot, ''checkout'', ''v1.2.3'']]
         \<and> checkout_phase env cfg depName repoRoot st =
             (if t1 = None then (Inr (), s1)
              else if b1 = None then (Inr (), s2)
              else if t2 = None then (Inr (), s3)
              else if b2 = None then (Inr (), s4)
              else (Inl (Error (''Failed to checkout '' @ depName @ '' reference ''
                           @ [CHR 0x22] @ ''1.2.3'' @ [CHR 0x22] @ ''.'' @ [CHR 0x0A]
                           @ ''Attempts:'' @ [CHR 0x0A]
                           @ checkout_failure_detail [the t1, the b1, the t2, the b2])), s4))"
proof -
  obtain t1 s1 where a1: "tag_attempt env repoRoot ''1.2.3'' st = (t1, s1)"
    by (cases "tag_attempt env repoRoot ''1.2.3'' st")
  obtain b1 s2 where a2: "branch_attempt env repoRoot ''1.2.3'' s1 = (b1, s2)"
    by (cases "branch_attempt env repoRoot ''1.2.3'' s1")
  obtain t2 s3 where a3: "tag_attempt env repoRoot ''v1.2.3'' s2 = (t2, s3)"
    by (cases "tag_attempt env repoRoot ''v1.2.3'' s2")
  obtain b2 s4 where a4: "branch_attempt env repoRoot ''v1.2.3'' s3 = (b2, s4)"
    by (cases "branch_attempt env repoRoot ''v1.2.3'' s3")
  from tag_attempt_trace [OF a1] obtain vs1 where
    v1: "trace s1 = trace st @ tag_fetch repoRoot ''1.2.3'' # vs1"
    and u1: "subseq vs1 [Git [''-C'', repoRoot, ''checkout'', ''--detach'', ''tags/1.2.3''],
                         Git [''-C'', repoRoot, ''checkout'', ''--detach'', ''1.2.3'']]"
    by auto
  from branch_attempt_trace [OF a2] obtain ws1 where
    w1: "trace s2 = trace s1 @ branch_fetch repoRoot ''1.2.3'' # ws1"
    and x1: "subseq ws1 [Git [''-C'', repoRoot, ''checkout'', ''1.2.3'']]"
    by auto
  from tag_attempt_trace [OF a3] obtain vs2 where
    v2: "trace s3 = trace s2 @ tag_fetch repoRoot ''v1.2.3'' # vs2"
    and u2: "subseq vs2 [Git [''-C'', repoRoot, ''checkout'', ''--detach'', ''tags/v1.2.3''],
                         Git [''-C'', repoRoot, ''checkout'', ''--detach'', ''v1.2.3'']]"
    by auto
  from branch_attempt_trace [OF a4] obtain ws2 where
    w2: "trace s4 = trace s3 @ branch_fetch repoRoot ''v1.2.3'' # ws2"
    and x2: "subseq ws2 [Git [''-C'', repoRoot, ''checkout'', ''v1.2.3'']]"
    by auto
  have loop: "checkout_candidates env repoRoot [''1.2.3'', ''v1.2.3''] [] st =
      (if t1 = None then (CheckedOut ''1.2.3'' Tag, s1)
       else if b1 = None then (CheckedOut ''1.2.3'' Branch, s2)
       else if t2 = None then (CheckedOut ''v1.2.3'' Tag, s3)
       else if b2 = None then (CheckedOut ''v1.2.3'' Branch, s4)
       else (CheckoutFailed [the t1, the b1, the t2, the b2], s4))"
    using a1 a2 a3 a4 by (auto simp: Let_def)
  have phase: "checkout_phase env cfg depName repoRoot st =
      (if t1 = None then (Inr (), s1)
       else if b1 = None then (Inr (), s2)
       else if t2 = None then (Inr (), s3)
       else if b2 = None then (Inr (), s4)
       else (Inl (Error (''Failed to checkout '' @ depName @ '' reference ''
                    @ [CHR 0x22] @ ''1.2.3'' @ [CHR 0x22] @ ''.'' @ [CHR 0x0A]
                    @ ''Attempts:'' @ [CHR 0x0A]
                    @ checkout_failure_detail [the t1, the b1, the t2, the b2])), s4))"
    using dv rp
    by (simp add: checkout_phase_def checkoutGitRef_def and_then_def Let_def loop
        del: checkout_candidates.simps)
  show ?thesis
    by (intro exI conjI) (rule a1 v1 u1 a2 w1 x1 a3 v2 u2 a4 w2 x2 phase)+
qed

lemma tagged_v_run:
  "run_git tagged_v_env args st
     = (if ''tag'' \<in> set args \<and> ''v1.2.3'' \<in> set args \<or> ''tags/v1.2.3'' \<in> set args
        then \<lparr>exec_ok = True, stdout = [], stderr = []\<rparr>
        else \<lparr>exec_ok = False, stdout = [], stderr = ''fatal''\<rparr>,
        st\<lparr>trace := trace st @ [Git args]\<rparr>)"
  by (simp add: run_git_def tagged_v_env_def)

theorem version_checkout_order_witness:
  "defaultVersion (example_dep [] False) = Some ''1.2.3'' \<and> ''/build/.git.temp/lib'' \<noteq> []
   \<and> checkout_phase tagged_v_env (example_dep [] False) ''lib'' ''/build/.git.temp/lib''
         \<lparr>trace = [], world = ()\<rparr>
       = (Inr (),
          \<lparr>trace = [tag_fetch ''/build/.git.temp/lib'' ''1.2.3'',
                    branch_fetch ''/build/.git.temp/lib'' ''1.2.3'',
                    tag_fetch ''/build/.git.temp/lib'' ''v1.2.3'',
                    Git [''-C'', ''/build/.git.temp/lib'', ''checkout'', ''--detach'',
                         ''tags/v1.2.3'']],
            world = ()\<rparr>)"
proof -
  let ?R = "''/build/.git.temp/lib''"
  let ?st = "\<lparr>trace = [], world = ()\<rparr>"
  have h1: "defaultVersion (example_dep [] False) = Some ''1.2.3''"
    by (simp add: example_dep_def)
  have h2: "?R \<noteq> []" by simp
  have e1: "tag_attempt tagged_v_env ?R ''1.2.3'' st
      = (Some \<lparr>err_ref = ''1.2.3'', err_type = Tag, err_step = Fetch, err_output = ''fatal''\<rparr>,
         st\<lparr>trace := trace st @ [tag_fetch ?R ''1.2.3'']\<rparr>)" for st :: "unit state"
    by (simp add: tag_attempt_def tagged_v_run tag_fetch_def collectOutput_def trim_def
        is_space_def)
  have e2: "branch_attempt tagged_v_env ?R ''1.2.3'' st
      = (Some \<lparr>err_ref = ''1.2.3'', err_type = Branch, err_step = Fetch, err_output = ''fatal''\<rparr>,
         st\<lparr>trace := trace st @ [branch_fetch ?R ''1.2.3'']\<rparr>)" for st :: "unit state"
    by (simp add: branch_attempt_def tagged_v_run branch_fetch_def collectOutput_def trim_def
        is_space_def)
  have e3: "tag_attempt tagged_v_env ?R ''v1.2.3'' st
      = (None, st\<lparr>trace := trace st @ [tag_fetch ?R ''v1.2.3'',
           Git [''-C'', ?R, ''checkout'', ''--detach'', ''tags/v1.2.3'']]\<rparr>)"
    for st :: "unit state"
    by (simp add: tag_attempt_def attemptCheckoutVariants_def tagged_v_run tag_fetch_def)
  from version_checkout_order [OF h1 h2, of tagged_v_env ?st "''lib''"]
  obtain t1 s1 b1 s2 t2 s3 b2 s4 where
    a: "tag_attempt tagged_v_env ?R ''1.2.3'' ?st = (t1, s1)"
      "branch_attempt tagged_v_env ?R ''1.2.3'' s1 = (b1, s2)"
      "tag_attempt tagged_v_env ?R ''v1.2.3'' s2 = (t2, s3)"
      "branch_attempt tagged_v_env ?R ''v1.2.3'' s3 = (b2, s4)"
    and phase: "checkout_phase tagged_v_env (example_dep [] False) ''lib'' ?R ?st =
             (if t1 = None then (Inr (), s1)
              else if b1 = None then (Inr (), s2)
              else if t2 = None then (Inr (), s3)
              else if b2 = None then (Inr (), s4)
              else (Inl (Error (''Failed to checkout '' @ ''lib'' @ '' reference ''
                           @ [CHR 0x22] @ ''1.2.3'' @ [CHR 0x22] @ ''.'' @ [CHR 0x0A]
                           @ ''Attempts:'' @ [CHR 0x0A]
                           @ checkout_failure_detail [the t1, the b1, the t2, the b2])), s4))"
    by blast
  from a(1) have "t1 \<noteq> None" "s1 = ?st\<lparr>trace := [tag_fetch ?R ''1.2.3'']\<rparr>"
    by (auto simp: e1)
  moreover from a(2) have "b1 \<noteq> None" "s2 = s1\<lparr>trace := trace s1 @ [branch_fetch ?R ''1.2.3'']\<rparr>"
    by (auto simp: e2)
  moreover from a(3) have "t2 = None"
    "s3 = s2\<lparr>trace := trace s2 @ [tag_fetch ?R ''v1.2.3'',
           Git [''-C'', ?R, ''checkout'', ''--detach'', ''tags/v1.2.3'']]\<rparr>"
    by (auto simp: e3)
  ultimately have "checkout_phase tagged_v_env (example_dep [] False) ''lib'' ?R ?st
      = (Inr (),
          \<lparr>trace = [tag_fetch ?R ''1.2.3'', branch_fetch ?R ''1.2.3'', tag_fetch ?R ''v1.2.3'',
                    Git [''-C'', ?R, ''checkout'', ''--detach'', ''tags/v1.2.3'']],
            world = ()\<rparr>)"
    using phase by simp
  with h1 h2 show ?thesis by simp
qed


section \<open>tool-loader.js\<close>

text \<open>
  A tool module is loaded by \<^verbatim>\<open>import()\<close>; \<open>configureTool\<close> is \<open>None\<close> when the module exports
  no such function. The result of \<^verbatim>\<open>configureTool()\<close> holds \<^verbatim>\<open>ok\<close>, \<^verbatim>\<open>reason\<close> and, when it
  is a function, \<^verbatim>\<open>cleanup\<close>; what a cleanup throws is caught and logged by the loader, so
  only its effect on the world counts. \<open>env_vars\<close> are \<^verbatim>\<open>PATH\<close>, \<^verbatim>\<open>INCLUDE\<close> and \<^verbatim>\<open>LIB\<close> of
  \<^verbatim>\<open>process.env\<close>.
\<close>

type_synonym env_vars = "string option \<times> string option \<times> string option"

record 'w tool_result =
  tool_ok :: bool
  tool_reason :: string
  tool_cleanup :: "('w \<Rightarrow> 'w) option"

record 'w tool_module =
  configureTool :: "('w \<Rightarrow> (exn + 'w tool_result) \<times> 'w) option"

text \<open>
  A build worker module: the names it exports and its \<^verbatim>\<open>build\<close>, \<open>None\<close> when that is
  missing or not a function. \<^verbatim>\<open>build\<close> takes \<^verbatim>\<open>{repoRoot, artifactsRoot, force}\<close>.
\<close>

record build_result =
  build_ok :: bool
  build_skipped :: "bool option"

record 'w worker_module =
  exports :: "string list"
  build :: "(string \<Rightarrow> string \<Rightarrow> bool \<Rightarrow> 'w \<Rightarrow> (exn + build_result) \<times> 'w) option"

record 'w env = "'w fs_env" +
  pathToFileURL :: "string \<Rightarrow> string"
  importWorker :: "string \<Rightarrow> 'w \<Rightarrow> (exn + 'w worker_module) \<times> 'w"
  importTool :: "string \<Rightarrow> 'w \<Rightarrow> (exn + 'w tool_module) \<times> 'w"
  getProcessEnv :: "'w \<Rightarrow> env_vars"
  setProcessEnv :: "env_vars \<Rightarrow> 'w \<Rightarrow> 'w"

definition load_error :: "tool_spec \<Rightarrow> exn \<Rightarrow> exn" where
  "load_error spec error =
     Error (''Failed to load tool '' @ [CHR 0x22] @ tool_name spec @ [CHR 0x22] @ '' from ''
            @ [CHR 0x22] @ toolFile spec @ [CHR 0x22] @ '': '' @ message error)"

text \<open>
  The loop \<^verbatim>\<open>for (const spec of toolSpecs)\<close>. The \<^verbatim>\<open>throw\<close> for a result that is not ok
  stands inside the \<^verbatim>\<open>try\<close>, so the \<^verbatim>\<open>catch\<close> wraps it like any other error.
\<close>

fun load_loop ::
  "('w, 'e) env_scheme \<Rightarrow> string \<Rightarrow> tool_spec list \<Rightarrow> (string \<times> ('w \<Rightarrow> 'w)) list \<Rightarrow> 'w state
     \<Rightarrow> (exn + (string \<times> ('w \<Rightarrow> 'w)) list) \<times> 'w state" where
  "load_loop env toolsDir [] cleanupFunctions st = (Inr cleanupFunctions, st)"
| "load_loop env toolsDir (spec # rest) cleanupFunctions st =
     (let toolPath = path_join env toolsDir (toolFile spec);
          toolUrl = pathToFileURL env toolPath;
          st1 = st\<lparr>trace := trace st @ [ImportTool toolUrl]\<rparr>
      in case importTool env toolUrl (world st1) of
           (Inl error, w) \<Rightarrow> (Inl (load_error spec error), st1\<lparr>world := w\<rparr>)
         | (Inr toolModule, w) \<Rightarrow>
             (case configureTool toolModule of
                None \<Rightarrow> load_loop env toolsDir rest cleanupFunctions (st1\<lparr>world := w\<rparr>)
              | Some configure \<Rightarrow>
                  (let st2 = st1\<lparr>trace := trace st1 @ [ConfigureTool (tool_name spec)],
                                 world := w\<rparr>
                   in case configure (world st2) of
                        (Inl error, w') \<Rightarrow> (Inl (load_error spec error), st2\<lparr>world := w'\<rparr>)
                      | (Inr result, w') \<Rightarrow>
                          if \<not> tool_ok result
                          then (Inl (load_error spec
                                       (Error (''Failed to configure tool '' @ [CHR 0x22]
                                          @ tool_name spec @ [CHR 0x22] @ '': ''
                                          @ (if tool_reason result \<noteq> [] then tool_reason result
                                             else ''unknown error'')))),
                                st2\<lparr>world := w'\<rparr>)
                          else load_loop env toolsDir rest
                                 (cleanupFunctions
                                    @ (case tool_cleanup result of
                                         None \<Rightarrow> []
                                       | Some cleanup \<Rightarrow> [(tool_name spec, cleanup)]))
                                 (st2\<lparr>world := w'\<rparr>))))"

text \<open>
  The function \<^verbatim>\<open>loadTools\<close> returns: the cleanups of the tools in reverse order, then the
  three variables of \<^verbatim>\<open>process.env\<close> set back.
\<close>

definition run_cleanup ::
  "('w, 'e) env_scheme \<Rightarrow> env_vars \<Rightarrow> (string \<times> ('w \<Rightarrow> 'w)) list \<Rightarrow> 'w state \<Rightarrow> 'w state" where
  "run_cleanup env originalEnv cleanupFunctions st =
     (let st1 = fold (\<lambda>(name, cleanup) s.
                        s\<lparr>trace := trace s @ [ToolCleanup name], world := cleanup (world s)\<rparr>)
                  (rev cleanupFunctions) st
      in st1\<lparr>trace := trace st1 @ [RestoreEnv],
             world := setProcessEnv env originalEnv (world st1)\<rparr>)"

definition loadTools ::
  "('w, 'e) env_scheme \<Rightarrow> tool_spec list \<Rightarrow> string \<Rightarrow> 'w state
     \<Rightarrow> (exn + ('w state \<Rightarrow> 'w state)) \<times> 'w state" where
  "loadTools env toolSpecs toolsDir st =
     (if length toolSpecs = 0 then (Inr (\<lambda>s. s), st)
      else
        (let originalEnv = getProcessEnv env (world st)
         in and_then (load_loop env toolsDir toolSpecs [] st)
              (\<lambda>cleanupFunctions st1.
                 (Inr (run_cleanup env originalEnv cleanupFunctions), st1))))"

section \<open>build-orchestrator.js\<close>

text \<open>
  The calls \<^verbatim>\<open>orchestrateBuild\<close> makes to its collaborators, in their order, are recorded
  in \<open>steps\<close>; what the collaborators do to the file system, with \<^verbatim>\<open>git\<close> and with the tool
  modules is recorded in the trace of the state below. \<open>results\<close> is the array of the
  same name.
\<close>

datatype step =
    PrepareRepository string
  | ImportWorker string
  | LoadTools string
  | BuildWorker string
  | CleanupTools string

record build_entry =
  entry_ok :: bool
  entry_name :: string
  entry_version :: "string option"
  entry_branch :: "string option"
  entry_error :: "string option"
  entry_skipped :: "bool option"
  entry_reason :: "string option"

record 'w run_state =
  steps :: "step list"
  results :: "build_entry list"
  lower :: "'w state"

text \<open>A statement of the lower layer, run from the orchestrator.\<close>

definition lift ::
  "('w state \<Rightarrow> (exn + 'a) \<times> 'w state) \<Rightarrow> 'w run_state \<Rightarrow> (exn + 'a) \<times> 'w run_state" where
  "lift f rs = (case f (lower rs) of (r, st) \<Rightarrow> (r, rs\<lparr>lower := st\<rparr>))"

text \<open>
  \<^verbatim>\<open>config.deps[depName] || null\<close>. For a name that is no key of \<^verbatim>\<open>deps\<close> but the name of a
  member \<^verbatim>\<open>deps\<close> inherits the lookup returns that member, a function or
  \<^verbatim>\<open>Object.prototype\<close>. It is no dependency entry: it has neither \<^verbatim>\<open>skip\<close> nor \<^verbatim>\<open>git\<close>, which
  is all \<^verbatim>\<open>orchestrateBuild\<close> reads of it before \<^verbatim>\<open>depConfig.git.shallow\<close> throws.
\<close>

definition inherited_member :: dep_config where
  "inherited_member =
     \<lparr>name = [], git = None, defaultVersion = None, branch = None, dep_deps = None,
      runner = [], tools = [], skip = False\<rparr>"

definition getDependency :: "build_config option \<Rightarrow> string \<Rightarrow> dep_config option" where
  "getDependency config depName =
     (case config of
        None \<Rightarrow> None
      | Some cfg \<Rightarrow>
          (case deps cfg of
             None \<Rightarrow> None
           | Some tbl \<Rightarrow>
               (case map_of tbl depName of
                  Some depConfig \<Rightarrow> Some depConfig
                | None \<Rightarrow>
                    if depName \<in> set object_prototype_names then Some inherited_member
                    else None)))"

text \<open>
  The \<^verbatim>\<open>try\<close> block of the loop body up to the loading of the tools. It yields what the
  rest of the block uses: \<^verbatim>\<open>repoResult\<close>, \<^verbatim>\<open>buildFunction\<close>, \<^verbatim>\<open>depArtifactsRoot\<close> and
  \<^verbatim>\<open>cleanupTools\<close>. \<^verbatim>\<open>depConfig.git.shallow\<close> throws a \<^verbatim>\<open>TypeError\<close> when \<^verbatim>\<open>git\<close> is missing,
  which validation excludes.
\<close>

definition before_build ::
  "('w, 'e) env_scheme \<Rightarrow> dep_config \<Rightarrow> string \<Rightarrow> string \<Rightarrow> string \<Rightarrow> string \<Rightarrow> bool
     \<Rightarrow> 'w run_state
     \<Rightarrow> (exn + repo_result
              \<times> (string \<Rightarrow> string \<Rightarrow> bool \<Rightarrow> 'w \<Rightarrow> (exn + build_result) \<times> 'w)
              \<times> string \<times> ('w state \<Rightarrow> 'w state)) \<times> 'w run_state" where
  "before_build env depConfig depName buildRoot gitRoot artifactsRoot force rs =
     (case git depConfig of
        None \<Rightarrow>
          (Inl (Error ''Cannot read properties of undefined (reading 'shallow')''), rs)
      | Some g \<Rightarrow>
          and_then
            (lift (prepareRepository env (Some depConfig) depName gitRoot (Some force)
                     (shallow g) (initSubmodules g))
               (rs\<lparr>steps := steps rs @ [PrepareRepository depName]\<rparr>))
            (\<lambda>repoResult rs1.
               let workerPath = runner depConfig
               in if workerPath = []
                  then (Inl (Error (''Dependency '' @ [CHR 0x22] @ depName @ [CHR 0x22]
                               @ '' is missing a '' @ [CHR 0x22] @ ''runner'' @ [CHR 0x22]
                               @ '' field in buildConfig.json'')), rs1)
                  else
                    (let absoluteWorkerPath = path_resolve env buildRoot workerPath;
                         workerUrl = pathToFileURL env absoluteWorkerPath;
                         rs2 = rs1\<lparr>steps := steps rs1 @ [ImportWorker workerUrl]\<rparr>
                     in and_then
                          (lift (\<lambda>st. case importWorker env workerUrl (world st) of
                                         (r, w) \<Rightarrow> (r, st\<lparr>world := w\<rparr>)) rs2)
                          (\<lambda>workerModule rs3.
                             case build workerModule of
                               None \<Rightarrow>
                                 (Inl (Error (''Build worker at '' @ [CHR 0x22] @ workerPath
                                         @ [CHR 0x22] @ '' does not export a '' @ [CHR 0x22]
                                         @ ''build'' @ [CHR 0x22] @ '' function. ''
                                         @ ''Available exports: ''
                                         @ join '', '' (exports workerModule))), rs3)
                             | Some buildFunction \<Rightarrow>
                                 (let artifactsDirName =
                                        (if name depConfig \<noteq> [] then name depConfig
                                         else depName);
                                      depArtifactsRoot =
                                        path_join env artifactsRoot artifactsDirName
                                  in and_then (lift (ensureDirectory env depArtifactsRoot) rs3)
                                       (\<lambda>_ rs4.
                                          and_then
                                            (if length (tools depConfig) > 0
                                             then lift (loadTools env (tools depConfig)
                                                          (path_join env buildRoot ''tools''))
                                                    (rs4\<lparr>steps := steps rs4
                                                                     @ [LoadTools depName]\<rparr>)
                                             else (Inr (\<lambda>s. s), rs4))
                                            (\<lambda>cleanupTools rs5.
                                               (Inr (repoResult, buildFunction,
                                                     depArtifactsRoot, cleanupTools),
                                                rs5))))))))"

text \<open>
  The rest of the \<^verbatim>\<open>try\<close> block. \<^verbatim>\<open>try { buildResult = await buildFunction(...) } finally
  { cleanupTools() }\<close> runs the cleanup whether the worker returns or throws, and passes
  the exception on. The parameter \<^verbatim>\<open>copyToReleases\<close> of \<^verbatim>\<open>orchestrateBuild\<close>, a boolean,
  hides the imported function of the same name: where the flag is set and the
  configuration has a \<^verbatim>\<open>releasesRoot\<close>, the call \<^verbatim>\<open>copyToReleases({...})\<close> calls that boolean
  and throws a \<^verbatim>\<open>TypeError\<close>, and the statements after it are never reached.
\<close>

definition build_and_record ::
  "build_config \<Rightarrow> string \<Rightarrow> bool \<Rightarrow> bool
     \<Rightarrow> repo_result \<times> (string \<Rightarrow> string \<Rightarrow> bool \<Rightarrow> 'w \<Rightarrow> (exn + build_result) \<times> 'w)
         \<times> string \<times> ('w state \<Rightarrow> 'w state)
     \<Rightarrow> 'w run_state \<Rightarrow> (exn + build_entry) \<times> 'w run_state" where
  "build_and_record cfg depName force copyToReleases loaded rs =
     (case loaded of (repoResult, buildFunction, depArtifactsRoot, cleanupTools) \<Rightarrow>
        (case buildFunction (repo_root repoResult) depArtifactsRoot force (world (lower rs)) of
           (outcome, w) \<Rightarrow>
             (let rs1 = rs\<lparr>steps := steps rs @ [BuildWorker depName],
                           lower := (lower rs)\<lparr>world := w\<rparr>\<rparr>;
                  rs2 = rs1\<lparr>steps := steps rs1 @ [CleanupTools depName],
                            lower := cleanupTools (lower rs1)\<rparr>
              in case outcome of
                   Inl error \<Rightarrow> (Inl error, rs2)
                 | Inr buildResult \<Rightarrow>
                     if copyToReleases \<and> releasesRoot cfg \<noteq> []
                     then (Inl (Error ''copyToReleases is not a function''), rs2)
                     else (Inr \<lparr>entry_ok = build_ok buildResult, entry_name = depName,
                                 entry_version = repo_version repoResult,
                                 entry_branch = repo_branch repoResult,
                                 entry_error = None,
                                 entry_skipped = build_skipped buildResult,
                                 entry_reason = None\<rparr>, rs2))))"

text \<open>The body of the loop \<^verbatim>\<open>for (const depName of filteredBuildOrder)\<close>.\<close>

definition failing_entry :: "string \<Rightarrow> exn \<Rightarrow> build_entry" where
  "failing_entry depName error =
     \<lparr>entry_ok = False, entry_name = depName, entry_version = None, entry_branch = None,
      entry_error = Some (message error), entry_skipped = None, entry_reason = None\<rparr>"

definition process_dependency ::
  "('w, 'e) env_scheme \<Rightarrow> build_config \<Rightarrow> string \<Rightarrow> bool \<Rightarrow> bool \<Rightarrow> string \<Rightarrow> string \<Rightarrow> string
     \<Rightarrow> 'w run_state \<Rightarrow> (exn + unit) \<times> 'w run_state" where
  "process_dependency env cfg buildRoot force copyToReleases gitRoot artifactsRoot depName rs =
     (case getDependency (Some cfg) depName of
        None \<Rightarrow>
          (let error = Error (''Dependency '' @ depName @ '' not found in configuration'')
           in (Inl error, rs\<lparr>results := results rs @ [failing_entry depName error]\<rparr>))
      | Some depConfig \<Rightarrow>
          if skip depConfig
          then (Inr (),
                rs\<lparr>results := results rs
                   @ [\<lparr>entry_ok = True, entry_name = depName, entry_version = None,
                       entry_branch = None, entry_error = None, entry_skipped = Some True,
                       entry_reason = Some ''marked as skip in config''\<rparr>]\<rparr>)
          else
            (case and_then
                    (before_build env depConfig depName buildRoot gitRoot artifactsRoot force rs)
                    (build_and_record cfg depName force copyToReleases) of
               (Inr entry, rs1) \<Rightarrow> (Inr (), rs1\<lparr>results := results rs1 @ [entry]\<rparr>)
             | (Inl error, rs1) \<Rightarrow>
                 (Inl error, rs1\<lparr>results := results rs1 @ [failing_entry depName error]\<rparr>)))"

fun orchestrate_loop ::
  "('w, 'e) env_scheme \<Rightarrow> build_config \<Rightarrow> string \<Rightarrow> bool \<Rightarrow> bool \<Rightarrow> string \<Rightarrow> string
     \<Rightarrow> string list \<Rightarrow> 'w run_state \<Rightarrow> (exn + unit) \<times> 'w run_state" where
  "orchestrate_loop env cfg buildRoot force copyToReleases gitRoot artifactsRoot [] rs =
     (Inr (), rs)"
| "orchestrate_loop env cfg buildRoot force copyToReleases gitRoot artifactsRoot
     (depName # rest) rs =
     and_then
       (process_dependency env cfg buildRoot force copyToReleases gitRoot artifactsRoot
          depName rs)
       (\<lambda>_. orchestrate_loop env cfg buildRoot force copyToReleases gitRoot artifactsRoot rest)"

definition orchestrateBuild ::
  "('w, 'e) env_scheme \<Rightarrow> build_config option \<Rightarrow> string \<Rightarrow> bool option \<Rightarrow> bool option
     \<Rightarrow> string list option \<Rightarrow> 'w state \<Rightarrow> (exn + build_entry list) \<times> 'w run_state" where
  "orchestrateBuild env config buildRoot force_opt copyToReleases_opt only st =
     (let force = (case force_opt of None \<Rightarrow> False | Some b \<Rightarrow> b);
          copyToReleases = (case copyToReleases_opt of None \<Rightarrow> False | Some b \<Rightarrow> b);
          rs = \<lparr>steps = [], results = [], lower = st\<rparr>
      in case config of
           None \<Rightarrow> (Inl (Error ''orchestrateBuild requires a config object''), rs)
         | Some cfg \<Rightarrow>
             if buildRoot = []
             then (Inl (Error ''orchestrateBuild requires a buildRoot directory''), rs)
             else
               (case validateBuildConfig config of
                  Inl error \<Rightarrow> (Inl error, rs)
                | Inr _ \<Rightarrow>
                    (case resolveBuildOrder config of
                       Inl error \<Rightarrow> (Inl (Error (resolve_error_message error)), rs)
                     | Inr buildOrder \<Rightarrow>
                         (let filteredBuildOrder =
                                (case only of
                                   None \<Rightarrow> buildOrder
                                 | Some names \<Rightarrow>
                                     if length names > 0
                                     then filter (\<lambda>depName. depName \<in> set names) buildOrder
                                     else buildOrder);
                              gitRoot = path_join env buildRoot ''.git.temp'';
                              artifactsRoot = path_join env buildRoot ''artifacts''
                          in and_then (lift (ensureDirectory env gitRoot) rs)
                               (\<lambda>_ rs1.
                                  and_then (lift (ensureDirectory env artifactsRoot) rs1)
                                    (\<lambda>_ rs2.
                                       and_then
                                         (orchestrate_loop env cfg buildRoot force
                                            copyToReleases gitRoot artifactsRoot
                                            filteredBuildOrder rs2)
                                         (\<lambda>_ rs3. (Inr (results rs3), rs3))))))))"


section \<open>Properties of the orchestration\<close>

text \<open>
  A world for the examples: every path exists, every command succeeds, a tool module
  configures itself and hands back a cleanup, and the worker of the dependency checked
  out at \<^verbatim>\<open>/build/.git.temp/b\<close> throws while every other worker returns \<^verbatim>\<open>ok: true\<close>.
\<close>

definition example_env :: "unit env" where
  "example_env =
     \<lparr>existsSync = (\<lambda>p w. True), mkdirSync = (\<lambda>p w. w), rmSync = (\<lambda>p w. w),
      runCommand = (\<lambda>c args w. (\<lparr>exec_ok = True, stdout = [], stderr = []\<rparr>, w)),
      dirname = (\<lambda>p. ''/build/.git.temp''), path_join = (\<lambda>a b. a @ ''/'' @ b),
      path_resolve = (\<lambda>a b. a @ ''/'' @ b),
      pathToFileURL = (\<lambda>p. ''file://'' @ p),
      importWorker = (\<lambda>url w.
        (Inr \<lparr>exports = [''build''],
              build = Some (\<lambda>repoRoot artifactsRoot force w.
                if repoRoot = ''/build/.git.temp/b'' then (Inl (Error ''compile error''), w)
                else (Inr \<lparr>build_ok = True, build_skipped = None\<rparr>, w))\<rparr>, w)),
      importTool = (\<lambda>url w.
        (Inr \<lparr>configureTool = Some (\<lambda>w.
                (Inr \<lparr>tool_ok = True, tool_reason = [],
                       tool_cleanup = Some (\<lambda>w. w)\<rparr>, w))\<rparr>, w)),
      getProcessEnv = (\<lambda>w. (None, None, None)),
      setProcessEnv = (\<lambda>v w. w)\<rparr>"

definition skipped_and_active :: dep_table where
  "skipped_and_active = [(''x'', example_dep [] True), (''a'', example_dep [] False)]"

text \<open>
  Three dependencies in a chain; the second one has a tool configured, and it is the one
  whose worker throws.
\<close>

definition tooled_dep :: dep_config where
  "tooled_dep =
     (example_dep [''a''] False)\<lparr>tools := [\<lparr>tool_name = ''cmake'', toolFile = ''cmake.js''\<rparr>]\<rparr>"

definition with_tools :: dep_table where
  "with_tools =
     [(''a'', example_dep [] False), (''b'', tooled_dep), (''c'', example_dep [''b''] False)]"


subsection \<open>What the loop body leaves in \<open>results\<close>\<close>

lemma lift_results: "results (snd (lift f rs)) = results rs"
  by (simp add: lift_def split: prod.splits)

lemma before_build_results:
  "results (snd (before_build env depConfig depName buildRoot gitRoot artifactsRoot force rs))
     = results rs"
  by (auto simp: before_build_def and_then_def lift_def Let_def
      split: option.splits prod.splits sum.splits)

lemma build_and_record_results:
  "results (snd (build_and_record cfg depName force copyToReleases loaded rs)) = results rs"
  by (auto simp: build_and_record_def Let_def split: prod.splits sum.splits)

lemma try_block_results:
  "results (snd (and_then
       (before_build env depConfig depName buildRoot gitRoot artifactsRoot force rs)
       (build_and_record cfg depName force copyToReleases))) = results rs"
proof (cases "before_build env depConfig depName buildRoot gitRoot artifactsRoot force rs")
  case (Pair r rs1)
  with before_build_results [of env depConfig depName buildRoot gitRoot artifactsRoot force rs]
  have "results rs1 = results rs" by simp
  with Pair show ?thesis
    by (cases r) (simp_all add: and_then_def build_and_record_results)
qed

lemma process_dependency_throws:
  assumes "process_dependency env cfg buildRoot force copyToReleases gitRoot artifactsRoot
             depName rs = (Inl e, rs')"
  shows "results rs' = results rs @ [failing_entry depName e]"
proof (cases "getDependency (Some cfg) depName")
  case None
  with assms show ?thesis by (auto simp: process_dependency_def Let_def)
next
  case (Some depConfig)
  let ?block = "and_then
      (before_build env depConfig depName buildRoot gitRoot artifactsRoot force rs)
      (build_and_record cfg depName force copyToReleases)"
  from assms Some have ns: "\<not> skip depConfig"
    by (auto simp: process_dependency_def)
  obtain r rs1 where t: "?block = (r, rs1)" by (cases ?block)
  with try_block_results [of env depConfig depName buildRoot gitRoot artifactsRoot force rs cfg
      copyToReleases]
  have "results rs1 = results rs" by simp
  with assms Some ns t show ?thesis
    by (cases r) (auto simp: process_dependency_def)
qed

lemma process_dependency_returns:
  assumes "process_dependency env cfg buildRoot force copyToReleases gitRoot artifactsRoot
             depName rs = (Inr u, rs')"
  shows "\<exists>entry. results rs' = results rs @ [entry] \<and> entry_name entry = depName"
proof (cases "getDependency (Some cfg) depName")
  case None
  with assms show ?thesis by (auto simp: process_dependency_def Let_def)
next
  case (Some depConfig)
  show ?thesis
  proof (cases "skip depConfig")
    case True
    with assms Some show ?thesis by (auto simp: process_dependency_def)
  next
    case False
    let ?before = "before_build env depConfig depName buildRoot gitRoot artifactsRoot force rs"
    obtain b rs1 where b: "?before = (b, rs1)" by (cases ?before)
    with before_build_results [of env depConfig depName buildRoot gitRoot artifactsRoot force rs]
    have r1: "results rs1 = results rs" by simp
    from assms Some False b obtain loaded where l: "b = Inr loaded"
      by (cases b) (auto simp: process_dependency_def and_then_def)
    obtain c rs2 where c: "build_and_record cfg depName force copyToReleases loaded rs1 = (c, rs2)"
      by (cases "build_and_record cfg depName force copyToReleases loaded rs1")
    with build_and_record_results [of cfg depName force copyToReleases loaded rs1] r1
    have r2: "results rs2 = results rs" by simp
    from assms Some False b l c obtain entry where e: "c = Inr entry"
      by (cases c) (auto simp: process_dependency_def and_then_def)
    from c e have "entry_name entry = depName"
      by (auto simp: build_and_record_def Let_def split: prod.splits sum.splits if_splits)
    with assms Some False b l c e r2 show ?thesis
      by (auto simp: process_dependency_def and_then_def)
  qed
qed

text \<open>
  If the loop throws, it throws at the first dependency whose processing throws: the
  order splits into the dependencies processed before (which all returned), the
  failing one and the rest, and \<open>results\<close> holds one entry for each dependency processed.
\<close>

lemma orchestrate_loop_throw_origin:
  assumes "orchestrate_loop env cfg buildRoot force copyToReleases gitRoot artifactsRoot
             order rs = (Inl e, rs')"
  shows "\<exists>pre depName post rs1.
           order = pre @ depName # post
           \<and> orchestrate_loop env cfg buildRoot force copyToReleases gitRoot artifactsRoot
                 pre rs = (Inr (), rs1)
           \<and> process_dependency env cfg buildRoot force copyToReleases gitRoot artifactsRoot
                 depName rs1 = (Inl e, rs')
           \<and> map entry_name (results rs') = map entry_name (results rs) @ pre @ [depName]
           \<and> last (results rs') = failing_entry depName e"
  using assms
proof (induction order arbitrary: rs)
  case Nil
  then show ?case by simp
next
  case (Cons d order)
  let ?p = "process_dependency env cfg buildRoot force copyToReleases gitRoot artifactsRoot d rs"
  obtain r rs1 where p: "?p = (r, rs1)" by (cases ?p)
  show ?case
  proof (cases r)
    case (Inl e')
    with Cons.prems p have "e' = e" "rs1 = rs'" by (simp_all add: and_then_def)
    with p Inl have thr: "?p = (Inl e, rs')" by simp
    from process_dependency_throws [OF thr]
    have "results rs' = results rs @ [failing_entry d e]" .
    with thr show ?thesis
      by (intro exI [of _ "[]"] exI [of _ d] exI [of _ order] exI [of _ rs])
        (simp add: failing_entry_def)
  next
    case (Inr u)
    with Cons.prems p
    have "orchestrate_loop env cfg buildRoot force copyToReleases gitRoot artifactsRoot
            order rs1 = (Inl e, rs')"
      by (simp add: and_then_def)
    from Cons.IH [OF this] obtain pre depName post rs2 where
      split: "order = pre @ depName # post"
      and pre: "orchestrate_loop env cfg buildRoot force copyToReleases gitRoot artifactsRoot
                  pre rs1 = (Inr (), rs2)"
      and fail: "process_dependency env cfg buildRoot force copyToReleases gitRoot artifactsRoot
                   depName rs2 = (Inl e, rs')"
      and names: "map entry_name (results rs') = map entry_name (results rs1) @ pre @ [depName]"
      and lst: "last (results rs') = failing_entry depName e"
      by blast
    from p Inr process_dependency_returns [of env cfg buildRoot force copyToReleases gitRoot
        artifactsRoot d rs u rs1]
    have "map entry_name (results rs1) = map entry_name (results rs) @ [d]" by auto
    with names have "map entry_name (results rs') = map entry_name (results rs) @ (d # pre) @ [depName]"
      by simp
    moreover from p Inr pre
    have "orchestrate_loop env cfg buildRoot force copyToReleases gitRoot artifactsRoot
            (d # pre) rs = (Inr (), rs2)"
      by (simp add: and_then_def)
    moreover from split have "d # order = (d # pre) @ depName # post" by simp
    ultimately show ?thesis
      using fail lst
      by (intro exI [of _ "d # pre"] exI [of _ depName] exI [of _ post] exI [of _ rs2]) simp
  qed
qed

text \<open>The dependencies the loop has processed without a throw do not matter for the rest.\<close>

lemma orchestrate_loop_append:
  assumes "orchestrate_loop env cfg buildRoot force copyToReleases gitRoot artifactsRoot
             pre rs = (Inr (), rs1)"
  shows "orchestrate_loop env cfg buildRoot force copyToReleases gitRoot artifactsRoot
           (pre @ rest) rs
         = orchestrate_loop env cfg buildRoot force copyToReleases gitRoot artifactsRoot
             rest rs1"
  using assms
proof (induction pre arbitrary: rs)
  case Nil
  then show ?case by simp
next
  case (Cons d pre)
  let ?p = "process_dependency env cfg buildRoot force copyToReleases gitRoot artifactsRoot d rs"
  obtain r rs' where p: "?p = (r, rs')" by (cases ?p)
  with Cons.prems have
    "r = Inr () \<and> orchestrate_loop env cfg buildRoot force copyToReleases gitRoot
                      artifactsRoot pre rs' = (Inr (), rs1)"
    by (cases r) (simp_all add: and_then_def)
  with Cons.IH [of rs'] p show ?case by (simp add: and_then_def)
qed

lemma orchestrate_loop_names:
  assumes "orchestrate_loop env cfg buildRoot force copyToReleases gitRoot artifactsRoot
             pre rs = (Inr (), rs1)"
  shows "map entry_name (results rs1) = map entry_name (results rs) @ pre"
  using assms
proof (induction pre arbitrary: rs)
  case Nil
  then show ?case by simp
next
  case (Cons d pre)
  let ?p = "process_dependency env cfg buildRoot force copyToReleases gitRoot artifactsRoot d rs"
  obtain r rs' where p: "?p = (r, rs')" by (cases ?p)
  with Cons.prems have r: "r = Inr ()"
    and rest: "orchestrate_loop env cfg buildRoot force copyToReleases gitRoot
                 artifactsRoot pre rs' = (Inr (), rs1)"
    by (cases r; simp add: and_then_def)+
  from p r process_dependency_returns [of env cfg buildRoot force copyToReleases gitRoot
      artifactsRoot d rs "()" rs']
  have "map entry_name (results rs') = map entry_name (results rs) @ [d]" by auto
  with Cons.IH [OF rest] show ?case by simp
qed

text \<open>
  Two throws inside the \<^verbatim>\<open>try\<close> block: \<^verbatim>\<open>prepareRepository\<close> throws, or the block gets as
  far as the build worker and the worker throws. In both cases the block throws the
  same exception; after a throw of the worker the cleanup of the tools has run.
\<close>

lemma preparation_throws:
  assumes "git depConfig = Some g"
    and "prepareRepository env (Some depConfig) depName gitRoot (Some force) (shallow g)
           (initSubmodules g) (lower rs) = (Inl e, st')"
  shows "and_then (before_build env depConfig depName buildRoot gitRoot artifactsRoot force rs)
           (build_and_record cfg depName force copyToReleases)
         = (Inl e, rs\<lparr>steps := steps rs @ [PrepareRepository depName], lower := st'\<rparr>)"
  using assms by (simp add: before_build_def and_then_def lift_def)

lemma build_throws:
  assumes "before_build env depConfig depName buildRoot gitRoot artifactsRoot force rs
             = (Inr (repoResult, buildFunction, depArtifactsRoot, cleanupTools), rs')"
    and "buildFunction (repo_root repoResult) depArtifactsRoot force (world (lower rs'))
           = (Inl e, w)"
  shows "and_then (before_build env depConfig depName buildRoot gitRoot artifactsRoot force rs)
           (build_and_record cfg depName force copyToReleases)
         = (Inl e, rs'\<lparr>steps := steps rs' @ [BuildWorker depName, CleanupTools depName],
                        lower := cleanupTools ((lower rs')\<lparr>world := w\<rparr>)\<rparr>)"
  using assms by (simp add: and_then_def build_and_record_def Let_def)

text \<open>
  C7. The loop has processed the dependencies \<open>pre\<close> without a throw and comes to
  \<open>depName\<close>. If the processing of \<open>depName\<close> raises an exception \<open>e\<close>, with \<open>rs2\<close> the state
  at the throw, then the loop over the whole order throws \<open>e\<close>, whatever dependencies
  \<open>post\<close> follow. The state it ends in is the state at the throw with one entry added to
  \<open>results\<close>, so nothing was run for a later dependency; the entry is \<^verbatim>\<open>ok: false\<close> with the
  name of the dependency and the message of the exception, and it comes after one entry
  for each dependency of \<open>pre\<close>. The exceptions the processing of a dependency can raise:
  the dependency is not found in the configuration; or it is found and not skipped, and
  the preparation of its repository throws, or its build worker throws, or anything
  else in the \<^verbatim>\<open>try\<close> block does.
\<close>

theorem orchestrate_loop_fail_fast:
  assumes pre: "orchestrate_loop env cfg buildRoot force copyToReleases gitRoot artifactsRoot
                  pre rs = (Inr (), rs1)"
    and thrown:
      "(getDependency (Some cfg) depName = None
          \<and> e = Error (''Dependency '' @ depName @ '' not found in configuration'')
          \<and> rs2 = rs1)
       \<or> (\<exists>depConfig.
            getDependency (Some cfg) depName = Some depConfig \<and> \<not> skip depConfig
          \<and> ((\<exists>g st'. git depConfig = Some g
                  \<and> prepareRepository env (Some depConfig) depName gitRoot (Some force)
                        (shallow g) (initSubmodules g) (lower rs1) = (Inl e, st')
                  \<and> rs2 = rs1\<lparr>steps := steps rs1 @ [PrepareRepository depName],
                               lower := st'\<rparr>)
               \<or> (\<exists>repoResult buildFunction depArtifactsRoot cleanupTools rs' w.
                    before_build env depConfig depName buildRoot gitRoot artifactsRoot force rs1
                      = (Inr (repoResult, buildFunction, depArtifactsRoot, cleanupTools), rs')
                  \<and> buildFunction (repo_root repoResult) depArtifactsRoot force
                        (world (lower rs')) = (Inl e, w)
                  \<and> rs2 = rs'\<lparr>steps := steps rs' @ [BuildWorker depName, CleanupTools depName],
                                lower := cleanupTools ((lower rs')\<lparr>world := w\<rparr>)\<rparr>)
               \<or> and_then
                    (before_build env depConfig depName buildRoot gitRoot artifactsRoot force rs1)
                    (build_and_record cfg depName force copyToReleases) = (Inl e, rs2)))"
  shows "orchestrate_loop env cfg buildRoot force copyToReleases gitRoot artifactsRoot
           (pre @ depName # post) rs
         = (Inl e,
            rs2\<lparr>results := results rs1
                   @ [\<lparr>entry_ok = False, entry_name = depName, entry_version = None,
                       entry_branch = None, entry_error = Some (message e),
                       entry_skipped = None, entry_reason = None\<rparr>]\<rparr>)
         \<and> map entry_name (results rs1) = map entry_name (results rs) @ pre"
proof -
  let ?goal = "process_dependency env cfg buildRoot force copyToReleases gitRoot artifactsRoot
      depName rs1
    = (Inl e, rs2\<lparr>results := results rs1 @ [failing_entry depName e]\<rparr>)"
  have found: ?goal
    if dep: "getDependency (Some cfg) depName = Some depConfig" and ns: "\<not> skip depConfig"
      and block: "and_then
        (before_build env depConfig depName buildRoot gitRoot artifactsRoot force rs1)
        (build_and_record cfg depName force copyToReleases) = (Inl e, rs2)"
    for depConfig
  proof -
    from block try_block_results [of env depConfig depName buildRoot gitRoot artifactsRoot
        force rs1 cfg copyToReleases]
    have "results rs2 = results rs1" by simp
    with dep ns block show ?thesis by (simp add: process_dependency_def)
  qed
  from thrown have ?goal
  proof (elim disjE exE conjE)
    assume "getDependency (Some cfg) depName = None"
      and "e = Error (''Dependency '' @ depName @ '' not found in configuration'')"
      and "rs2 = rs1"
    then show ?thesis by (simp add: process_dependency_def Let_def)
  next
    fix depConfig g st'
    assume dep: "getDependency (Some cfg) depName = Some depConfig" and ns: "\<not> skip depConfig"
      and "git depConfig = Some g"
      and "prepareRepository env (Some depConfig) depName gitRoot (Some force) (shallow g)
             (initSubmodules g) (lower rs1) = (Inl e, st')"
      and "rs2 = rs1\<lparr>steps := steps rs1 @ [PrepareRepository depName], lower := st'\<rparr>"
    with preparation_throws [of depConfig g env depName gitRoot force rs1 e st' buildRoot
        artifactsRoot cfg copyToReleases]
    show ?thesis by (intro found [OF dep ns]) simp
  next
    fix depConfig repoResult buildFunction depArtifactsRoot cleanupTools rs' w
    assume dep: "getDependency (Some cfg) depName = Some depConfig" and ns: "\<not> skip depConfig"
      and "before_build env depConfig depName buildRoot gitRoot artifactsRoot force rs1
             = (Inr (repoResult, buildFunction, depArtifactsRoot, cleanupTools), rs')"
      and "buildFunction (repo_root repoResult) depArtifactsRoot force (world (lower rs'))
             = (Inl e, w)"
      and "rs2 = rs'\<lparr>steps := steps rs' @ [BuildWorker depName, CleanupTools depName],
                      lower := cleanupTools ((lower rs')\<lparr>world := w\<rparr>)\<rparr>"
    with build_throws [of env depConfig depName buildRoot gitRoot artifactsRoot force rs1
        repoResult buildFunction depArtifactsRoot cleanupTools rs' e w cfg copyToReleases]
    show ?thesis by (intro found [OF dep ns]) simp
  next
    fix depConfig
    assume "getDependency (Some cfg) depName = Some depConfig" and "\<not> skip depConfig"
      and "and_then
        (before_build env depConfig depName buildRoot gitRoot artifactsRoot force rs1)
        (build_and_record cfg depName force copyToReleases) = (Inl e, rs2)"
    then show ?thesis by (rule found)
  qed
  then have "orchestrate_loop env cfg buildRoot force copyToReleases gitRoot artifactsRoot
               (depName # post) rs1
             = (Inl e, rs2\<lparr>results := results rs1 @ [failing_entry depName e]\<rparr>)"
    by (simp add: and_then_def)
  with orchestrate_loop_append [OF pre, of "depName # post"] orchestrate_loop_names [OF pre]
  show ?thesis by (simp add: failing_entry_def)
qed


subsection \<open>The example world, step by step\<close>

lemma example_env_simps:
  "existsSync example_env p w = True"
  "dirname example_env p = ''/build/.git.temp''"
  "path_join example_env a b = a @ ''/'' @ b"
  "path_resolve example_env a b = a @ ''/'' @ b"
  "pathToFileURL example_env p = ''file://'' @ p"
  "getProcessEnv example_env w = (None, None, None)"
  "setProcessEnv example_env v w = w"
  by (simp_all add: example_env_def)

lemma example_run_git:
  "run_git example_env args st
     = (\<lparr>exec_ok = True, stdout = [], stderr = []\<rparr>, st\<lparr>trace := trace st @ [Git args]\<rparr>)"
  by (simp add: run_git_def example_env_def)

lemma example_ensureDirectory:
  "p \<noteq> [] \<Longrightarrow> ensureDirectory example_env p st = (Inr p, st)"
  by (simp add: ensureDirectory_def example_env_def)

lemma example_tag_attempt:
  "tag_attempt example_env repoPath r st
     = (None, st\<lparr>trace := trace st @ [tag_fetch repoPath r,
          Git [''-C'', repoPath, ''checkout'', ''--detach'', ''tags/'' @ r]]\<rparr>)"
  by (simp add: tag_attempt_def attemptCheckoutVariants_def example_run_git tag_fetch_def)

lemma example_checkout_phase:
  assumes "defaultVersion d = Some ''1.2.3''" and "repoRoot \<noteq> []"
  shows "checkout_phase example_env d depName repoRoot st
     = (Inr (), st\<lparr>trace := trace st @ [tag_fetch repoRoot ''1.2.3'',
          Git [''-C'', repoRoot, ''checkout'', ''--detach'', ''tags/1.2.3'']]\<rparr>)"
  using assms
  by (simp add: checkout_phase_def checkoutGitRef_def and_then_def example_tag_attempt Let_def)

lemma example_clone:
  assumes "repoUrl \<noteq> []" and "destination \<noteq> []"
  shows "cloneGitRepository example_env repoUrl destination sh [] st
     = (Inr \<lparr>clone_ok = True, clone_skipped = True, clone_reason = Some ''already cloned'',
             clone_path = destination, clone_stdout = [], clone_stderr = []\<rparr>, st)"
  using assms
  by (simp add: cloneGitRepository_def example_ensureDirectory example_env_simps)

lemma example_prepareRepository:
  assumes "git d = Some g" and "url g \<noteq> []" and "initSubmodules g = Some False"
    and "depName \<noteq> []" and "gitRoot \<noteq> []" and "defaultVersion d = Some ''1.2.3''"
  shows "prepareRepository example_env (Some d) depName gitRoot (Some False) (shallow g)
           (initSubmodules g) st
     = (Inr \<lparr>repo_ok = True, repo_root = gitRoot @ ''/'' @ sanitize depName,
             repo_version = Some ''1.2.3'', repo_branch = branch d, repo_skipped = True\<rparr>,
        st\<lparr>trace := trace st @ [tag_fetch (gitRoot @ ''/'' @ sanitize depName) ''1.2.3'',
          Git [''-C'', gitRoot @ ''/'' @ sanitize depName, ''checkout'', ''--detach'',
               ''tags/1.2.3'']]\<rparr>)"
proof -
  note r = example_env_simps
  show ?thesis
    using assms
    by (simp add: prepareRepository_def Let_def and_then_def example_ensureDirectory r
        example_clone example_checkout_phase submodule_phase_def)
qed


lemma example_loadTools:
  "loadTools example_env [spec] toolsDir st
     = (Inr (run_cleanup example_env (None, None, None) [(tool_name spec, \<lambda>w. w)]),
        st\<lparr>trace := trace st @ [ImportTool (''file://'' @ toolsDir @ ''/'' @ toolFile spec),
                                ConfigureTool (tool_name spec)]\<rparr>)"
  by (simp add: loadTools_def and_then_def Let_def example_env_simps)
    (simp add: example_env_def)

lemma example_importWorker:
  "importWorker example_env workerUrl w
     = (Inr \<lparr>exports = [''build''],
             build = Some (\<lambda>repoRoot artifactsRoot force w.
               if repoRoot = ''/build/.git.temp/b'' then (Inl (Error ''compile error''), w)
               else (Inr \<lparr>build_ok = True, build_skipped = None\<rparr>, w))\<rparr>, w)"
  by (simp add: example_env_def)

lemma example_before_build:
  "before_build example_env tooled_dep ''b'' ''/build'' ''/build/.git.temp'' ''/build/artifacts''
     False rs
     = (Inr (\<lparr>repo_ok = True, repo_root = ''/build/.git.temp/b'', repo_version = Some ''1.2.3'',
             repo_branch = None, repo_skipped = True\<rparr>,
            (\<lambda>repoRoot artifactsRoot force w.
               if repoRoot = ''/build/.git.temp/b'' then (Inl (Error ''compile error''), w)
               else (Inr \<lparr>build_ok = True, build_skipped = None\<rparr>, w)),
            ''/build/artifacts/lib'',
            run_cleanup example_env (None, None, None) [(''cmake'', \<lambda>w. w)]),
        rs\<lparr>steps := steps rs
              @ [PrepareRepository ''b'',
                 ImportWorker ''file:///build/scripts/build-workers/buildLib.js'',
                 LoadTools ''b''],
           lower := (lower rs)\<lparr>trace := trace (lower rs)
              @ [tag_fetch ''/build/.git.temp/b'' ''1.2.3'',
                 Git [''-C'', ''/build/.git.temp/b'', ''checkout'', ''--detach'', ''tags/1.2.3''],
                 ImportTool ''file:///build/tools/cmake.js'', ConfigureTool ''cmake'']\<rparr>\<rparr>)"
proof -
  have d: "git tooled_dep = Some \<lparr>url = ''https://example.org/lib.git'', shallow = Some True,
                 initSubmodules = Some False\<rparr>"
    "defaultVersion tooled_dep = Some ''1.2.3''" "branch tooled_dep = None"
    "runner tooled_dep = ''scripts/build-workers/buildLib.js''" "name tooled_dep = ''lib''"
    "tools tooled_dep = [\<lparr>tool_name = ''cmake'', toolFile = ''cmake.js''\<rparr>]"
    by (simp_all add: tooled_dep_def example_dep_def)
  have s: "sanitize ''b'' = ''b''" by (simp add: sanitize_def)
  have p: "prepareRepository example_env (Some tooled_dep) ''b'' ''/build/.git.temp'' (Some False)
      (Some True) (Some False) st
    = (Inr \<lparr>repo_ok = True, repo_root = ''/build/.git.temp/b'',
             repo_version = Some ''1.2.3'', repo_branch = None, repo_skipped = True\<rparr>,
        st\<lparr>trace := trace st @ [tag_fetch ''/build/.git.temp/b'' ''1.2.3'',
          Git [''-C'', ''/build/.git.temp/b'', ''checkout'', ''--detach'', ''tags/1.2.3'']]\<rparr>)"
    for st
    using example_prepareRepository [OF d(1) _ _ _ _ d(2), of "''b''" "''/build/.git.temp''" st]
    by (simp add: s d)
  show ?thesis
    by (simp add: before_build_def d lift_def and_then_def Let_def p example_env_simps
        example_importWorker example_ensureDirectory example_loadTools)
qed


lemma example_before_build_plain:
  "before_build example_env (example_dep ds False) ''a'' ''/build'' ''/build/.git.temp''
     ''/build/artifacts'' False rs
     = (Inr (\<lparr>repo_ok = True, repo_root = ''/build/.git.temp/a'', repo_version = Some ''1.2.3'',
             repo_branch = None, repo_skipped = True\<rparr>,
            (\<lambda>repoRoot artifactsRoot force w.
               if repoRoot = ''/build/.git.temp/b'' then (Inl (Error ''compile error''), w)
               else (Inr \<lparr>build_ok = True, build_skipped = None\<rparr>, w)),
            ''/build/artifacts/lib'', (\<lambda>s. s)),
        rs\<lparr>steps := steps rs
              @ [PrepareRepository ''a'',
                 ImportWorker ''file:///build/scripts/build-workers/buildLib.js''],
           lower := (lower rs)\<lparr>trace := trace (lower rs)
              @ [tag_fetch ''/build/.git.temp/a'' ''1.2.3'',
                 Git [''-C'', ''/build/.git.temp/a'', ''checkout'', ''--detach'',
                      ''tags/1.2.3'']]\<rparr>\<rparr>)"
proof -
  let ?d = "example_dep ds False"
  have d: "git ?d = Some \<lparr>url = ''https://example.org/lib.git'', shallow = Some True,
                 initSubmodules = Some False\<rparr>"
    "defaultVersion ?d = Some ''1.2.3''" "branch ?d = None"
    "runner ?d = ''scripts/build-workers/buildLib.js''" "name ?d = ''lib''" "tools ?d = []"
    by (simp_all add: example_dep_def)
  have s: "sanitize ''a'' = ''a''" by (simp add: sanitize_def)
  have p: "prepareRepository example_env (Some ?d) ''a'' ''/build/.git.temp'' (Some False)
      (Some True) (Some False) st
    = (Inr \<lparr>repo_ok = True, repo_root = ''/build/.git.temp/a'',
             repo_version = Some ''1.2.3'', repo_branch = None, repo_skipped = True\<rparr>,
        st\<lparr>trace := trace st @ [tag_fetch ''/build/.git.temp/a'' ''1.2.3'',
          Git [''-C'', ''/build/.git.temp/a'', ''checkout'', ''--detach'', ''tags/1.2.3'']]\<rparr>)"
    for st
    using example_prepareRepository [OF d(1) _ _ _ _ d(2), of "''a''" "''/build/.git.temp''" st]
    by (simp add: s d)
  show ?thesis
    by (simp add: before_build_def d lift_def and_then_def Let_def p example_env_simps
        example_importWorker example_ensureDirectory)
qed

lemma example_lookup:
  "getDependency (Some (example_config with_tools)) ''a'' = Some (example_dep [] False)"
  "getDependency (Some (example_config with_tools)) ''b'' = Some tooled_dep"
  by (simp_all add: getDependency_def example_config_def with_tools_def)

lemma example_process_a:
  assumes "getDependency (Some cfg) ''a'' = Some (example_dep ds False)"
  shows "process_dependency example_env cfg ''/build'' False False
     ''/build/.git.temp'' ''/build/artifacts'' ''a'' rs
   = (Inr (),
      rs\<lparr>steps := steps rs
            @ [PrepareRepository ''a'',
               ImportWorker ''file:///build/scripts/build-workers/buildLib.js'',
               BuildWorker ''a'', CleanupTools ''a''],
         results := results rs
            @ [\<lparr>entry_ok = True, entry_name = ''a'', entry_version = Some ''1.2.3'',
                entry_branch = None, entry_error = None, entry_skipped = None,
                entry_reason = None\<rparr>],
         lower := (lower rs)\<lparr>trace := trace (lower rs)
            @ [tag_fetch ''/build/.git.temp/a'' ''1.2.3'',
               Git [''-C'', ''/build/.git.temp/a'', ''checkout'', ''--detach'',
                    ''tags/1.2.3'']]\<rparr>\<rparr>)"
  using assms
  by (simp add: process_dependency_def example_before_build_plain and_then_def
      build_and_record_def Let_def)
    (simp add: example_dep_def)

lemma example_process_b:
  "process_dependency example_env (example_config with_tools) ''/build'' False False
     ''/build/.git.temp'' ''/build/artifacts'' ''b'' rs
   = (Inl (Error ''compile error''),
      rs\<lparr>steps := steps rs
            @ [PrepareRepository ''b'',
               ImportWorker ''file:///build/scripts/build-workers/buildLib.js'',
               LoadTools ''b'', BuildWorker ''b'', CleanupTools ''b''],
         results := results rs @ [failing_entry ''b'' (Error ''compile error'')],
         lower := (lower rs)\<lparr>trace := trace (lower rs)
            @ [tag_fetch ''/build/.git.temp/b'' ''1.2.3'',
               Git [''-C'', ''/build/.git.temp/b'', ''checkout'', ''--detach'', ''tags/1.2.3''],
               ImportTool ''file:///build/tools/cmake.js'', ConfigureTool ''cmake'',
               ToolCleanup ''cmake'', RestoreEnv]\<rparr>\<rparr>)"
  by (simp add: process_dependency_def example_lookup example_before_build and_then_def
      build_and_record_def Let_def run_cleanup_def example_env_simps)
    (simp add: tooled_dep_def example_dep_def)

text \<open>
  The same world without a network: every \<^verbatim>\<open>git\<close> command fails.
\<close>

definition offline_env :: "unit env" where
  "offline_env =
     example_env\<lparr>runCommand :=
       (\<lambda>c args w. (\<lparr>exec_ok = False, stdout = [], stderr = ''fatal''\<rparr>, w))\<rparr>"

text \<open>What the checkout of \<^verbatim>\<open>1.2.3\<close> throws there, after its four fetches have failed.\<close>

definition offline_error :: exn where
  "offline_error =
     Error (''Failed to checkout a reference '' @ [CHR 0x22] @ ''1.2.3'' @ [CHR 0x22]
            @ ''.'' @ [CHR 0x0A] @ ''Attempts:'' @ [CHR 0x0A]
            @ checkout_failure_detail
                [\<lparr>err_ref = ''1.2.3'', err_type = Tag, err_step = Fetch,
                  err_output = ''fatal''\<rparr>,
                 \<lparr>err_ref = ''1.2.3'', err_type = Branch, err_step = Fetch,
                  err_output = ''fatal''\<rparr>,
                 \<lparr>err_ref = ''v1.2.3'', err_type = Tag, err_step = Fetch,
                  err_output = ''fatal''\<rparr>,
                 \<lparr>err_ref = ''v1.2.3'', err_type = Branch, err_step = Fetch,
                  err_output = ''fatal''\<rparr>])"

lemma offline_prepareRepository:
  "prepareRepository offline_env (Some (example_dep [] False)) ''a'' ''/build/.git.temp''
     (Some False) (Some True) (Some False) \<lparr>trace = [], world = ()\<rparr>
   = (Inl offline_error,
      \<lparr>trace = [tag_fetch ''/build/.git.temp/a'' ''1.2.3'',
                branch_fetch ''/build/.git.temp/a'' ''1.2.3'',
                tag_fetch ''/build/.git.temp/a'' ''v1.2.3'',
                branch_fetch ''/build/.git.temp/a'' ''v1.2.3''],
        world = ()\<rparr>)"
  by code_simp

theorem orchestrate_loop_fail_fast_witness:
  "getDependency (Some (example_config with_tools)) ''b'' = Some tooled_dep
   \<and> \<not> skip tooled_dep
   \<and> orchestrate_loop example_env (example_config with_tools) ''/build'' False False
         ''/build/.git.temp'' ''/build/artifacts'' [''a'', ''b'', ''c'']
         \<lparr>steps = [], results = [], lower = \<lparr>trace = [], world = ()\<rparr>\<rparr>
       = (Inl (Error ''compile error''),
          \<lparr>steps = [PrepareRepository ''a'',
                    ImportWorker ''file:///build/scripts/build-workers/buildLib.js'',
                    BuildWorker ''a'', CleanupTools ''a'',
                    PrepareRepository ''b'',
                    ImportWorker ''file:///build/scripts/build-workers/buildLib.js'',
                    LoadTools ''b'', BuildWorker ''b'', CleanupTools ''b''],
            results = [\<lparr>entry_ok = True, entry_name = ''a'', entry_version = Some ''1.2.3'',
                         entry_branch = None, entry_error = None, entry_skipped = None,
                         entry_reason = None\<rparr>,
                       \<lparr>entry_ok = False, entry_name = ''b'', entry_version = None,
                         entry_branch = None, entry_error = Some ''compile error'',
                         entry_skipped = None, entry_reason = None\<rparr>],
            lower = \<lparr>trace = [tag_fetch ''/build/.git.temp/a'' ''1.2.3'',
                              Git [''-C'', ''/build/.git.temp/a'', ''checkout'', ''--detach'',
                                   ''tags/1.2.3''],
                              tag_fetch ''/build/.git.temp/b'' ''1.2.3'',
                              Git [''-C'', ''/build/.git.temp/b'', ''checkout'', ''--detach'',
                                   ''tags/1.2.3''],
                              ImportTool ''file:///build/tools/cmake.js'', ConfigureTool ''cmake'',
                              ToolCleanup ''cmake'', RestoreEnv],
                     world = ()\<rparr>\<rparr>)
   \<and> fst (orchestrateBuild example_env (Some (example_config with_tools)) ''/build'' None None
              None \<lparr>trace = [], world = ()\<rparr>)
       = Inl (Error ''compile error'')
   \<and> snd (orchestrateBuild example_env (Some (example_config with_tools)) ''/build'' None None
              None \<lparr>trace = [], world = ()\<rparr>)
       = snd (orchestrate_loop example_env (example_config with_tools) ''/build'' False False
                ''/build/.git.temp'' ''/build/artifacts'' [''a'', ''b'', ''c'']
                \<lparr>steps = [], results = [], lower = \<lparr>trace = [], world = ()\<rparr>\<rparr>)
   \<and> getDependency (Some (example_config with_tools)) ''a'' = Some (example_dep [] False)
   \<and> \<not> skip (example_dep [] False)
   \<and> fst (orchestrate_loop offline_env (example_config with_tools) ''/build'' False False
              ''/build/.git.temp'' ''/build/artifacts'' [''a'', ''b'', ''c'']
              \<lparr>steps = [], results = [], lower = \<lparr>trace = [], world = ()\<rparr>\<rparr>)
       = Inl offline_error
   \<and> steps (snd (orchestrate_loop offline_env (example_config with_tools) ''/build'' False
                    False ''/build/.git.temp'' ''/build/artifacts'' [''a'', ''b'', ''c'']
                    \<lparr>steps = [], results = [], lower = \<lparr>trace = [], world = ()\<rparr>\<rparr>))
       = [PrepareRepository ''a'']
   \<and> map (\<lambda>entry. (entry_ok entry, entry_name entry))
         (results (snd (orchestrate_loop offline_env (example_config with_tools) ''/build''
                          False False ''/build/.git.temp'' ''/build/artifacts''
                          [''a'', ''b'', ''c'']
                          \<lparr>steps = [], results = [], lower = \<lparr>trace = [], world = ()\<rparr>\<rparr>)))
       = [(False, ''a'')]"
proof -
  let ?rs0 = "\<lparr>steps = [], results = [], lower = \<lparr>trace = [], world = ()\<rparr>\<rparr> :: unit run_state"
  let ?cfg = "example_config with_tools"
  let ?loop = "orchestrate_loop example_env ?cfg ''/build'' False False
      ''/build/.git.temp'' ''/build/artifacts''"
  have sk: "\<not> skip tooled_dep" "\<not> skip (example_dep [] False)"
    by (simp_all add: tooled_dep_def example_dep_def)
  have g: "git (example_dep [] False)
      = Some \<lparr>url = ''https://example.org/lib.git'', shallow = Some True,
              initSubmodules = Some False\<rparr>"
    by (simp add: example_dep_def)
  obtain rs1 where pre: "?loop [''a''] ?rs0 = (Inr (), rs1)"
    and rs1: "rs1 = ?rs0\<lparr>steps := steps ?rs0
            @ [PrepareRepository ''a'',
               ImportWorker ''file:///build/scripts/build-workers/buildLib.js'',
               BuildWorker ''a'', CleanupTools ''a''],
         results := results ?rs0
            @ [\<lparr>entry_ok = True, entry_name = ''a'', entry_version = Some ''1.2.3'',
                entry_branch = None, entry_error = None, entry_skipped = None,
                entry_reason = None\<rparr>],
         lower := (lower ?rs0)\<lparr>trace := trace (lower ?rs0)
            @ [tag_fetch ''/build/.git.temp/a'' ''1.2.3'',
               Git [''-C'', ''/build/.git.temp/a'', ''checkout'', ''--detach'',
                    ''tags/1.2.3'']]\<rparr>\<rparr>"
    by (simp add: example_process_a [OF example_lookup(1)] and_then_def)
  let ?repo = "\<lparr>repo_ok = True, repo_root = ''/build/.git.temp/b'',
      repo_version = Some ''1.2.3'', repo_branch = None, repo_skipped = True\<rparr>"
  let ?clean = "run_cleanup example_env (None, None, None) [(''cmake'', \<lambda>w. w)]"
  let ?rs' = "rs1\<lparr>steps := steps rs1
              @ [PrepareRepository ''b'',
                 ImportWorker ''file:///build/scripts/build-workers/buildLib.js'',
                 LoadTools ''b''],
           lower := (lower rs1)\<lparr>trace := trace (lower rs1)
              @ [tag_fetch ''/build/.git.temp/b'' ''1.2.3'',
                 Git [''-C'', ''/build/.git.temp/b'', ''checkout'', ''--detach'', ''tags/1.2.3''],
                 ImportTool ''file:///build/tools/cmake.js'', ConfigureTool ''cmake'']\<rparr>\<rparr>"
  let ?rs2 = "?rs'\<lparr>steps := steps ?rs' @ [BuildWorker ''b'', CleanupTools ''b''],
                   lower := ?clean ((lower ?rs')\<lparr>world := ()\<rparr>)\<rparr>"
  have worker:
    "\<exists>repoResult buildFunction depArtifactsRoot cleanupTools rs' w.
       before_build example_env tooled_dep ''b'' ''/build'' ''/build/.git.temp''
         ''/build/artifacts'' False rs1
         = (Inr (repoResult, buildFunction, depArtifactsRoot, cleanupTools), rs')
       \<and> buildFunction (repo_root repoResult) depArtifactsRoot False (world (lower rs'))
           = (Inl (Error ''compile error''), w)
       \<and> ?rs2 = rs'\<lparr>steps := steps rs' @ [BuildWorker ''b'', CleanupTools ''b''],
                      lower := cleanupTools ((lower rs')\<lparr>world := w\<rparr>)\<rparr>"
    by (simp add: example_before_build)
  have build: "?loop ([''a''] @ ''b'' # [''c'']) ?rs0
      = (Inl (Error ''compile error''),
         ?rs2\<lparr>results := results rs1
                   @ [\<lparr>entry_ok = False, entry_name = ''b'', entry_version = None,
                       entry_branch = None,
                       entry_error = Some (message (Error ''compile error'')),
                       entry_skipped = None, entry_reason = None\<rparr>]\<rparr>)
      \<and> map entry_name (results rs1) = map entry_name (results ?rs0) @ [''a'']"
    apply (rule orchestrate_loop_fail_fast [OF pre])
    apply (rule disjI2)
    apply (rule exI [where x = tooled_dep])
    apply (intro conjI)
      apply (rule example_lookup(2))
     apply (rule sk(1))
    apply (rule disjI2)
    apply (rule disjI1)
    apply (rule worker)
    done
  have offline: "orchestrate_loop offline_env ?cfg ''/build'' False False ''/build/.git.temp''
      ''/build/artifacts'' [] ?rs0 = (Inr (), ?rs0)"
    by simp
  let ?rsA = "?rs0\<lparr>steps := steps ?rs0 @ [PrepareRepository ''a''],
                  lower := \<lparr>trace = [tag_fetch ''/build/.git.temp/a'' ''1.2.3'',
                                      branch_fetch ''/build/.git.temp/a'' ''1.2.3'',
                                      tag_fetch ''/build/.git.temp/a'' ''v1.2.3'',
                                      branch_fetch ''/build/.git.temp/a'' ''v1.2.3''],
                             world = ()\<rparr>\<rparr>"
  have preparation:
    "\<exists>g st'. git (example_dep [] False) = Some g
       \<and> prepareRepository offline_env (Some (example_dep [] False)) ''a'' ''/build/.git.temp''
           (Some False) (shallow g) (initSubmodules g) (lower ?rs0) = (Inl offline_error, st')
       \<and> ?rsA = ?rs0\<lparr>steps := steps ?rs0 @ [PrepareRepository ''a''], lower := st'\<rparr>"
    by (simp add: g offline_prepareRepository)
  have prep: "orchestrate_loop offline_env ?cfg ''/build'' False False ''/build/.git.temp''
        ''/build/artifacts'' ([] @ ''a'' # [''b'', ''c'']) ?rs0
      = (Inl offline_error,
         ?rsA\<lparr>results := results ?rs0
                   @ [\<lparr>entry_ok = False, entry_name = ''a'', entry_version = None,
                       entry_branch = None, entry_error = Some (message offline_error),
                       entry_skipped = None, entry_reason = None\<rparr>]\<rparr>)
      \<and> map entry_name (results ?rs0) = map entry_name (results ?rs0) @ []"
    apply (rule orchestrate_loop_fail_fast [OF offline])
    apply (rule disjI2)
    apply (rule exI [where x = "example_dep [] False"])
    apply (intro conjI)
      apply (rule example_lookup(1))
     apply (rule sk(2))
    apply (rule disjI1)
    apply (rule preparation)
    done
  from build have b: "?loop [''a'', ''b'', ''c''] ?rs0
       = (Inl (Error ''compile error''),
          \<lparr>steps = [PrepareRepository ''a'',
                    ImportWorker ''file:///build/scripts/build-workers/buildLib.js'',
                    BuildWorker ''a'', CleanupTools ''a'',
                    PrepareRepository ''b'',
                    ImportWorker ''file:///build/scripts/build-workers/buildLib.js'',
                    LoadTools ''b'', BuildWorker ''b'', CleanupTools ''b''],
            results = [\<lparr>entry_ok = True, entry_name = ''a'', entry_version = Some ''1.2.3'',
                         entry_branch = None, entry_error = None, entry_skipped = None,
                         entry_reason = None\<rparr>,
                       \<lparr>entry_ok = False, entry_name = ''b'', entry_version = None,
                         entry_branch = None, entry_error = Some ''compile error'',
                         entry_skipped = None, entry_reason = None\<rparr>],
            lower = \<lparr>trace = [tag_fetch ''/build/.git.temp/a'' ''1.2.3'',
                              Git [''-C'', ''/build/.git.temp/a'', ''checkout'', ''--detach'',
                                   ''tags/1.2.3''],
                              tag_fetch ''/build/.git.temp/b'' ''1.2.3'',
                              Git [''-C'', ''/build/.git.temp/b'', ''checkout'', ''--detach'',
                                   ''tags/1.2.3''],
                              ImportTool ''file:///build/tools/cmake.js'', ConfigureTool ''cmake'',
                              ToolCleanup ''cmake'', RestoreEnv],
                     world = ()\<rparr>\<rparr>)"
    by (simp add: rs1 run_cleanup_def example_env_simps)
  from prep
  have p: "fst (orchestrate_loop offline_env ?cfg ''/build'' False False ''/build/.git.temp''
                  ''/build/artifacts'' [''a'', ''b'', ''c''] ?rs0)
       = Inl offline_error"
    "steps (snd (orchestrate_loop offline_env ?cfg ''/build'' False False ''/build/.git.temp''
                  ''/build/artifacts'' [''a'', ''b'', ''c''] ?rs0)) = [PrepareRepository ''a'']"
    "map (\<lambda>entry. (entry_ok entry, entry_name entry))
         (results (snd (orchestrate_loop offline_env ?cfg ''/build'' False False
            ''/build/.git.temp'' ''/build/artifacts'' [''a'', ''b'', ''c''] ?rs0)))
       = [(False, ''a'')]"
    by simp_all
  have v: "validateBuildConfig (Some ?cfg) = Inr ()"
    by (simp add: validateBuildConfig_def validate_dep_def example_config_def with_tools_def
        tooled_dep_def example_dep_def)
  have r: "resolveBuildOrder (Some ?cfg) = Inr [''a'', ''b'', ''c'']"
    by code_simp
  have o: "fst (orchestrateBuild example_env (Some ?cfg) ''/build'' None None None
                  \<lparr>trace = [], world = ()\<rparr>) = Inl (Error ''compile error'')"
    "snd (orchestrateBuild example_env (Some ?cfg) ''/build'' None None None
            \<lparr>trace = [], world = ()\<rparr>) = snd (?loop [''a'', ''b'', ''c''] ?rs0)"
    by (simp_all add: orchestrateBuild_def v r Let_def lift_def and_then_def example_env_simps
        example_ensureDirectory b del: orchestrate_loop.simps)
  from b o p example_lookup sk show ?thesis by simp
qed


subsection \<open>The cleanup of the tools\<close>

lemma before_build_steps:
  assumes "before_build env depConfig depName buildRoot gitRoot artifactsRoot force rs
             = (Inr loaded, rs1)"
  shows "steps rs1 = steps rs
           @ [PrepareRepository depName,
              ImportWorker (pathToFileURL env (path_resolve env buildRoot (runner depConfig)))]
           @ (if length (tools depConfig) > 0 then [LoadTools depName] else [])"
  using assms
  by (auto simp: before_build_def and_then_def lift_def Let_def
      split: option.splits prod.splits sum.splits if_splits)


text \<open>
  C8. When the tools of a dependency are configured and were loaded (the \<^verbatim>\<open>try\<close> block
  got as far as \<^verbatim>\<open>cleanupTools = await loadTools(...)\<close>), the calls made for this
  dependency are: repository preparation, import of the worker, loading of the tools,
  the build worker and then, once, the cleanup of the tools, and nothing after it. That
  holds whatever the worker does, whether it returns or throws; an exception it throws
  is thrown on after the cleanup. The lower state
  at the end is the one the cleanup function makes of the state the worker left.
\<close>

theorem cleanup_exactly_once:
  assumes dep: "getDependency (Some cfg) depName = Some depConfig" and ns: "\<not> skip depConfig"
    and tools: "length (tools depConfig) > 0"
    and loaded: "before_build env depConfig depName buildRoot gitRoot artifactsRoot force rs
                   = (Inr (repoResult, buildFunction, depArtifactsRoot, cleanupTools), rs1)"
  shows "steps (snd (process_dependency env cfg buildRoot force copyToReleases gitRoot
                       artifactsRoot depName rs))
           = steps rs
             @ [PrepareRepository depName,
                ImportWorker (pathToFileURL env (path_resolve env buildRoot (runner depConfig))),
                LoadTools depName, BuildWorker depName, CleanupTools depName]
         \<and> lower (snd (process_dependency env cfg buildRoot force copyToReleases gitRoot
                          artifactsRoot depName rs))
             = cleanupTools
                 ((lower rs1)\<lparr>world :=
                    snd (buildFunction (repo_root repoResult) depArtifactsRoot force
                           (world (lower rs1)))\<rparr>)
         \<and> (\<forall>e. fst (buildFunction (repo_root repoResult) depArtifactsRoot force
                        (world (lower rs1))) = Inl e
               \<longrightarrow> fst (process_dependency env cfg buildRoot force copyToReleases gitRoot
                          artifactsRoot depName rs) = Inl e)"
proof -
  obtain outcome w where build:
    "buildFunction (repo_root repoResult) depArtifactsRoot force (world (lower rs1))
       = (outcome, w)"
    by (cases "buildFunction (repo_root repoResult) depArtifactsRoot force (world (lower rs1))")
  from before_build_steps [OF loaded] tools
  have s1: "steps rs1 = steps rs
      @ [PrepareRepository depName,
         ImportWorker (pathToFileURL env (path_resolve env buildRoot (runner depConfig))),
         LoadTools depName]"
    by simp
  obtain r rs2 where rec: "build_and_record cfg depName force copyToReleases
      (repoResult, buildFunction, depArtifactsRoot, cleanupTools) rs1 = (r, rs2)"
    by (cases "build_and_record cfg depName force copyToReleases
      (repoResult, buildFunction, depArtifactsRoot, cleanupTools) rs1")
  from rec build have s2: "steps rs2 = steps rs1 @ [BuildWorker depName, CleanupTools depName]"
    and l2: "lower rs2 = cleanupTools ((lower rs1)\<lparr>world := w\<rparr>)"
    and thrown: "\<And>e. outcome = Inl e \<Longrightarrow> r = Inl e"
    by (auto simp: build_and_record_def Let_def split: sum.splits if_splits)
  from dep ns loaded rec
  have "steps (snd (process_dependency env cfg buildRoot force copyToReleases gitRoot
                      artifactsRoot depName rs)) = steps rs2"
    and "lower (snd (process_dependency env cfg buildRoot force copyToReleases gitRoot
                       artifactsRoot depName rs)) = lower rs2"
    and "\<And>e. r = Inl e \<Longrightarrow>
           fst (process_dependency env cfg buildRoot force copyToReleases gitRoot
                  artifactsRoot depName rs) = Inl e"
    by (auto simp: process_dependency_def and_then_def split: sum.splits)
  with s1 s2 l2 thrown build show ?thesis by simp
qed

theorem cleanup_exactly_once_witness:
  "getDependency (Some (example_config with_tools)) ''b'' = Some tooled_dep
   \<and> \<not> skip tooled_dep \<and> length (tools tooled_dep) > 0
   \<and> steps (snd (process_dependency example_env (example_config with_tools) ''/build'' False
                    False ''/build/.git.temp'' ''/build/artifacts'' ''b''
                    \<lparr>steps = [], results = [], lower = \<lparr>trace = [], world = ()\<rparr>\<rparr>))
       = [PrepareRepository ''b'',
          ImportWorker ''file:///build/scripts/build-workers/buildLib.js'',
          LoadTools ''b'', BuildWorker ''b'', CleanupTools ''b'']
   \<and> fst (process_dependency example_env (example_config with_tools) ''/build'' False
             False ''/build/.git.temp'' ''/build/artifacts'' ''b''
             \<lparr>steps = [], results = [], lower = \<lparr>trace = [], world = ()\<rparr>\<rparr>)
       = Inl (Error ''compile error'')"
proof -
  let ?rs = "\<lparr>steps = [], results = [], lower = \<lparr>trace = [], world = ()\<rparr>\<rparr> :: unit run_state"
  have h2: "\<not> skip tooled_dep" and h3: "length (tools tooled_dep) > 0"
    and r: "runner tooled_dep = ''scripts/build-workers/buildLib.js''"
    by (simp_all add: tooled_dep_def example_dep_def)
  note once = cleanup_exactly_once [OF example_lookup(2) h2 h3 example_before_build,
      where copyToReleases = False and rs = ?rs]
  from once have "steps (snd (process_dependency example_env (example_config with_tools)
      ''/build'' False False ''/build/.git.temp'' ''/build/artifacts'' ''b'' ?rs))
      = [PrepareRepository ''b'',
         ImportWorker ''file:///build/scripts/build-workers/buildLib.js'',
         LoadTools ''b'', BuildWorker ''b'', CleanupTools ''b'']"
    by (simp add: r example_env_simps)
  moreover from once have "fst (process_dependency example_env (example_config with_tools)
      ''/build'' False False ''/build/.git.temp'' ''/build/artifacts'' ''b'' ?rs)
      = Inl (Error ''compile error'')"
    by simp
  ultimately show ?thesis
    using example_lookup(2) h2 h3 by simp
qed

subsection \<open>Skipped dependencies\<close>

text \<open>
  C4. A configuration with the skipped dependency \<open>x\<close> and the active dependency \<open>a\<close>:
  \<^verbatim>\<open>resolveBuildOrder\<close> leaves \<open>x\<close> out of the order, the loop never reaches the branch
  that would record it, and the list \<^verbatim>\<open>orchestrateBuild\<close> returns holds the entry of \<open>a\<close>
  alone.
\<close>

theorem skipped_dependency_not_recorded:
  "fst (orchestrateBuild example_env (Some (example_config skipped_and_active)) ''/build''
          None None None \<lparr>trace = [], world = ()\<rparr>)
     = Inr [\<lparr>entry_ok = True, entry_name = ''a'', entry_version = Some ''1.2.3'',
              entry_branch = None, entry_error = None, entry_skipped = None,
              entry_reason = None\<rparr>]"
proof -
  have v: "validateBuildConfig (Some (example_config skipped_and_active)) = Inr ()"
    by (simp add: validateBuildConfig_def validate_dep_def example_config_def
        skipped_and_active_def example_dep_def)
  have r: "resolveBuildOrder (Some (example_config skipped_and_active)) = Inr [''a'']"
    by code_simp
  have l: "getDependency (Some (example_config skipped_and_active)) ''a''
             = Some (example_dep [] False)"
    by (simp add: getDependency_def example_config_def skipped_and_active_def)
  show ?thesis
    by (simp add: orchestrateBuild_def v r Let_def lift_def and_then_def example_env_simps
        example_ensureDirectory example_process_a [OF l])
qed

end
